theory Spec2Isabelle
  imports Complex_Main "HOL-Library.Word"
begin

section \<open>The Tensor class (frnn::Tensor<T, R>)\<close>

text \<open>
  The class has four members: the flat element vector \<open>_data\<close>, the vector of dimension
  sizes \<open>_dimensions\<close>, and the two scratch members \<open>_counter\<close> and \<open>_offset\<close> that
  the call operator mutates while it walks through its index arguments. The rank \<open>R\<close> is
  a template parameter; every function below takes it as its first argument.

  Sizes, counters and indices are natural numbers, an \<open>int\<close> is a word of 32 bits and
  a \<open>size_t\<close> has 64 bits. The constructors are modelled with the conversions between
  the two and with the \<open>int\<close> accumulator of their products written out. The model of
  the call operator is that of the source as long as the products of the dimension
  sizes stay inside that accumulator; nothing is said about the elements of tensors
  with more elements than that.

  Messages written to \<open>std::cout\<close> and \<open>std::cerr\<close> are collected in a log. An
  entry records the stream and the exception whose \<open>what()\<close> was printed, with the
  arguments the exception was constructed from.
\<close>

datatype stream = Cout | Cerr

datatype tensor_exception =
    TensorOutOfRange nat nat nat
  | TensorOutOfRangeDim "32 word" nat
  | TensorInvalidArguments nat nat

type_synonym log = "(stream \<times> tensor_exception) list"

record 'a Tensor =
  m_data :: "'a list"
  m_dimensions :: "nat list"
  m_counter :: nat
  m_offset :: nat

text \<open>
  \<open>std::vector::operator[]\<close> does not check its argument: reading past the end is
  undefined behaviour. \<open>vec_at\<close> makes that case the value \<open>None\<close>, and every function
  that indexes a vector returns an option, \<open>None\<close> standing for undefined behaviour.
\<close>

definition vec_at :: "'a list \<Rightarrow> nat \<Rightarrow> 'a option" where
  "vec_at xs i = (if i < length xs then Some (xs ! i) else None)"

text \<open>
  \<open>std::accumulate(first, last, 1, std::multiplies<int>())\<close>: a left fold of the
  product, starting from 1.
\<close>

definition accumulate_mult :: "nat list \<Rightarrow> nat" where
  "accumulate_mult xs = foldl (*) 1 xs"

subsection \<open>size(), size(dim), rank(), dimSizes(), data(), operator[]\<close>


text \<open>
  \<open>size(const int dim)\<close> compares the \<open>int\<close> argument with the \<open>size_t\<close> rank: the
  usual arithmetic conversions turn \<open>dim\<close> into a \<open>size_t\<close> first, so that a negative
  \<open>dim\<close> becomes a number close to \<open>2 ^ 64\<close>. The same conversion happens when \<open>dim\<close>
  is passed to \<open>_dimensions[dim]\<close>. The exception is caught inside the function, its
  message goes to \<open>std::cout\<close> and 0 is returned.
\<close>

definition size_t_of_int :: "32 word \<Rightarrow> nat" where
  "size_t_of_int i = nat (sint i mod 2 ^ 64)"

definition size_dim :: "nat \<Rightarrow> 'a Tensor \<Rightarrow> 32 word \<Rightarrow> (log \<times> nat) option" where
  "size_dim R t dm =
     (if R \<le> size_t_of_int dm then Some ([(Cout, TensorOutOfRangeDim dm R)], 0)
      else case vec_at (m_dimensions t) (size_t_of_int dm) of
             None \<Rightarrow> None
           | Some d \<Rightarrow> Some ([], d))"

definition rank :: "nat \<Rightarrow> 'a Tensor \<Rightarrow> nat" where
  "rank R t = R"


definition data :: "'a Tensor \<Rightarrow> 'a list" where
  "data t = m_data t"

text \<open>
  \<open>operator[]\<close> returns \<open>_data[i]\<close>, by value in the const overload and by reference in
  the other one. \<open>subscript\<close> is the read, \<open>subscript_assign\<close> the write through the
  returned reference.
\<close>

definition subscript :: "'a Tensor \<Rightarrow> nat \<Rightarrow> 'a option" where
  "subscript t i = vec_at (m_data t) i"


subsection \<open>operator() with arithmetic arguments\<close>

text \<open>
  The call operator returns a reference to an element of \<open>_data\<close>. The model returns the
  tensor with its updated scratch members, the log, and the flat position of the element
  the reference denotes; \<open>elem_ref\<close> is \<open>return _data[k]\<close>, undefined when there is no
  such element. The const overloads repeat the bodies of the two overloads below line by
  line, so one model stands for both. An index argument is a natural number: a negative
  argument, once converted for the comparison with the unsigned size, is above every
  size and takes the out-of-range branch like any other index that is too large.
\<close>

type_synonym 'a access = "('a Tensor \<times> log \<times> nat) option"

definition elem_ref :: "'a Tensor \<Rightarrow> log \<Rightarrow> nat \<Rightarrow> 'a access" where
  "elem_ref t lg k = (if k < length (m_data t) then Some (t, lg, k) else None)"

text \<open>
  The overload with one argument, "terminating case". When the range check fails the
  exception is caught, the counter is reset and \<open>_data[0]\<close> is returned. When the counter
  is zero a \<open>TensorInvalidArguments\<close> is thrown and caught, but that handler only prints:
  control goes on to the offset computation below it.
  \<open>std::accumulate(begin, end - 1, ...)\<close> multiplies all dimension sizes but the last;
  \<open>end - 1\<close> does not exist for an empty vector.
\<close>

definition paren_last :: "nat \<Rightarrow> 'a Tensor \<Rightarrow> nat \<Rightarrow> 'a access" where
  "paren_last R t idx =
     (case vec_at (m_dimensions t) (m_counter t) of
        None \<Rightarrow> None
      | Some d \<Rightarrow>
          if d \<le> idx
          then elem_ref (t\<lparr>m_counter := 0\<rparr>)
                 [(Cerr, TensorOutOfRange (m_counter t + 1) d idx)] 0
          else if m_dimensions t = [] then None
          else
            let lg = (if m_counter t = 0 then [(Cerr, TensorInvalidArguments 1 R)] else []);
                off = m_offset t + accumulate_mult (butlast (m_dimensions t)) * idx
            in elem_ref (t\<lparr>m_counter := 0, m_offset := off\<rparr>) lg off)"

text \<open>
  The variadic overload takes one index \<open>idx\<close> and a non-empty pack \<open>indices\<close>
  (with an empty pack the one-argument overload is the better match), and ends by
  calling the operator on the pack. \<open>num_args\<close> is the length of the pack. The counter is
  incremented by the test \<open>_counter++ == 0\<close> on both branches. On the first index the
  number of arguments is compared with \<open>R\<close>; that handler returns \<open>_data[0]\<close> and leaves
  the counter at 1. On every other index the product of the dimension sizes in
  \<open>[begin, end - num_args - 1)\<close> is multiplied by the index and added to the offset.
\<close>

fun paren :: "nat \<Rightarrow> 'a Tensor \<Rightarrow> nat \<Rightarrow> nat list \<Rightarrow> 'a access" where
  "paren R t idx [] = paren_last R t idx"
| "paren R t idx (i # indices) =
     (let num_args = length (i # indices) in
      case vec_at (m_dimensions t) (m_counter t) of
        None \<Rightarrow> None
      | Some d \<Rightarrow>
          if d \<le> idx
          then elem_ref (t\<lparr>m_counter := 0\<rparr>)
                 [(Cout, TensorOutOfRange (m_counter t + 1) d idx)] 0
          else if m_counter t = 0
          then
            if num_args + 1 \<noteq> R
            then elem_ref (t\<lparr>m_counter := m_counter t + 1\<rparr>)
                   [(Cerr, TensorInvalidArguments (num_args + 1) R)] 0
            else paren R (t\<lparr>m_counter := m_counter t + 1, m_offset := idx\<rparr>) i indices
          else if length (m_dimensions t) < num_args + 1 then None
          else
            paren R
              (t\<lparr>m_counter := m_counter t + 1,
                 m_offset := m_offset t
                   + accumulate_mult
                       (take (length (m_dimensions t) - num_args - 1) (m_dimensions t)) * idx\<rparr>)
              i indices)"

text \<open>The element a finished access refers to.\<close>

definition accessed :: "'a access \<Rightarrow> 'a option" where
  "accessed r = (case r of None \<Rightarrow> None | Some (t, lg, k) \<Rightarrow> vec_at (m_data t) k)"

definition position :: "'a access \<Rightarrow> nat option" where
  "position r = (case r of None \<Rightarrow> None | Some (t, lg, k) \<Rightarrow> Some k)"

text \<open>
  The counter a finished access leaves behind, and the next call of the operator on the
  tensor that a finished access leaves behind.
\<close>

definition counter_after :: "'a access \<Rightarrow> nat option" where
  "counter_after r = (case r of None \<Rightarrow> None | Some (t, lg, k) \<Rightarrow> Some (m_counter t))"

definition then_paren :: "'a access \<Rightarrow> nat \<Rightarrow> nat \<Rightarrow> nat list \<Rightarrow> 'a access" where
  "then_paren r R idx indices =
     (case r of None \<Rightarrow> None | Some (t, lg, k) \<Rightarrow> paren R t idx indices)"

subsection \<open>Constructors\<close>

text \<open>
  A constructor that does not return a tensor ends in one of two ways: a failed
  \<open>ASSERT\<close>, or the \<open>std::length_error\<close> that \<open>std::vector\<close> throws when it is
  asked for more elements than a vector can have.
\<close>

datatype construction_error = AssertionFailed | LengthError

text \<open>
  Modelled from the spec: the macro \<open>ASSERT(left, ==, right)\<close> that the constructors
  call is defined in a header that is not among the sources. The specification says of
  the checked constructors that construction "fails" when the compared values differ, so
  a false \<open>ASSERT_eq\<close> ends the constructor with \<open>AssertionFailed\<close> and a true one lets
  it go on.
\<close>

definition ASSERT_eq :: "nat \<Rightarrow> nat \<Rightarrow> bool" where
  "ASSERT_eq left right \<longleftrightarrow> left = right"

text \<open>
  The products of the checked constructors are computed by \<open>std::accumulate\<close> with
  the literal \<open>1\<close> as start value, so the accumulator is an \<open>int\<close>.

  With \<open>std::multiplies<int>()\<close> on the \<open>int\<close>s of an initializer list every step
  is a multiplication of two \<open>int\<close>s. A product outside the range of \<open>int\<close> is a
  signed overflow, which is undefined behaviour: the result is \<open>None\<close>.
\<close>

definition in_int_range :: "int \<Rightarrow> bool" where
  "in_int_range k \<longleftrightarrow> - (2 ^ 31) \<le> k \<and> k < 2 ^ 31"

definition accumulate_int :: "32 word list \<Rightarrow> 32 word option" where
  "accumulate_int xs =
     foldl (\<lambda>acc x. case acc of
                      None \<Rightarrow> None
                    | Some a \<Rightarrow> if in_int_range (sint a * sint x) then Some (a * x) else None)
       (Some 1) xs"

text \<open>
  With \<open>std::multiplies<size_type>()\<close> on a vector of \<open>size_t\<close> every step converts
  the accumulator to \<open>size_t\<close>, multiplies modulo \<open>2 ^ 64\<close>, and assigns the product
  to the \<open>int\<close> accumulator, which keeps the low 32 bits of it.
\<close>

definition int_of_size_t :: "nat \<Rightarrow> 32 word" where
  "int_of_size_t n = of_nat n"

definition accumulate_size_t :: "nat list \<Rightarrow> 32 word" where
  "accumulate_size_t xs =
     foldl (\<lambda>acc x. int_of_size_t ((size_t_of_int acc * x) mod 2 ^ 64)) 1 xs"

text \<open>
  \<open>Tensor()\<close>: no elements, \<open>R\<close> dimension sizes that are all zero.
\<close>

definition Tensor_default :: "nat \<Rightarrow> 'a Tensor" where
  "Tensor_default R =
     \<lparr>m_data = [], m_dimensions = replicate R 0, m_counter = 0, m_offset = 0\<rparr>"

text \<open>
  \<open>Tensor(std::initializer_list<int> dimensions)\<close>: the member initialiser gives
  \<open>_data\<close> as many value-initialised elements (\<open>zero\<close>) as the product of the list,
  converted to \<open>size_t\<close>. A negative product is converted to a number above the largest
  size a vector can have, and the constructor of the vector throws
  \<open>std::length_error\<close>. Then the body checks the length of the list and appends its
  elements, each converted to \<open>size_t\<close>, to the empty \<open>_dimensions\<close>.
\<close>

definition Tensor_init_list ::
  "nat \<Rightarrow> 'a \<Rightarrow> 32 word list \<Rightarrow> (construction_error + 'a Tensor) option" where
  "Tensor_init_list R zero dimensions =
     (case accumulate_int dimensions of
        None \<Rightarrow> None
      | Some n \<Rightarrow>
          if sint n < 0 then Some (Inl LengthError)
          else
            let dat = replicate (size_t_of_int n) zero in
            if \<not> ASSERT_eq (length dimensions) R then Some (Inl AssertionFailed)
            else Some (Inr \<lparr>m_data = dat,
                            m_dimensions =
                              fold (\<lambda>element ds. ds @ [size_t_of_int element]) dimensions [],
                            m_counter = 0, m_offset = 0\<rparr>))"

text \<open>
  \<open>Tensor(TensorExpression<T,E> const& expression)\<close>. The class \<open>TensorExpression\<close>
  is declared in a header that is not among the sources; the constructor uses three of
  its members, \<open>dimSizes()\<close>, \<open>size()\<close> and \<open>operator[]\<close>, and an expression is
  represented here by what these three return. The constructor copies the dimension
  sizes, resizes \<open>_data\<close> to \<open>size()\<close> and fills position \<open>i\<close> with \<open>expr[i]\<close> for every
  \<open>i\<close> below \<open>size()\<close>. Nothing is compared with \<open>R\<close>.
\<close>

record 'a TensorExpression =
  e_dimSizes :: "nat list"
  e_size :: nat
  e_elem :: "nat \<Rightarrow> 'a"

definition Tensor_expression :: "'a TensorExpression \<Rightarrow> 'a Tensor" where
  "Tensor_expression expr =
     \<lparr>m_data = map (e_elem expr) [0..<e_size expr], m_dimensions = e_dimSizes expr,
      m_counter = 0, m_offset = 0\<rparr>"


text \<open>
  \<open>Tensor(std::vector<size_type>& dimensions, container_type& data)\<close>: both vectors
  are moved into the members, then the number of dimension sizes is compared with \<open>R\<close>
  and the number of elements with the accumulated product of the dimension sizes, an
  \<open>int\<close> that the comparison with a \<open>size_t\<close> converts to \<open>size_t\<close>.
\<close>

definition Tensor_vectors :: "nat \<Rightarrow> nat list \<Rightarrow> 'a list \<Rightarrow> construction_error + 'a Tensor" where
  "Tensor_vectors R dimensions dat =
     (if \<not> ASSERT_eq (length dimensions) R then Inl AssertionFailed
      else if \<not> ASSERT_eq (length dat) (size_t_of_int (accumulate_size_t dimensions))
      then Inl AssertionFailed
      else Inr \<lparr>m_data = dat, m_dimensions = dimensions, m_counter = 0, m_offset = 0\<rparr>)"

subsection \<open>The class invariant and the two flattening orders\<close>

text \<open>
  The invariant the specification states for a tensor of rank \<open>R\<close>: as many elements
  as the product of the dimension sizes, and \<open>R\<close> dimension sizes.
\<close>

definition tensor_inv :: "nat \<Rightarrow> 'a Tensor \<Rightarrow> bool" where
  "tensor_inv R t \<longleftrightarrow>
     length (m_data t) = prod_list (m_dimensions t) \<and> length (m_dimensions t) = R"

text \<open>An index tuple is in range when it has one index per dimension, each below the size.\<close>

definition in_range :: "nat list \<Rightarrow> nat list \<Rightarrow> bool" where
  "in_range dims idx \<longleftrightarrow> list_all2 (<) idx dims"

text \<open>
  The offset in the words of the specification: the stride of dimension \<open>d\<close> is the
  product of the sizes of all dimensions after \<open>d\<close>, so that the last index varies
  fastest.
\<close>

definition row_major_offset :: "nat list \<Rightarrow> nat list \<Rightarrow> nat" where
  "row_major_offset dims idx =
     sum_list (map (\<lambda>d. idx ! d * prod_list (drop (Suc d) dims)) [0..<length dims])"

text \<open>
  The other order: the stride of dimension \<open>d\<close> is the product of the sizes of all
  dimensions before \<open>d\<close>, so that the first index varies fastest.
\<close>

definition col_major_offset :: "nat list \<Rightarrow> nat list \<Rightarrow> nat" where
  "col_major_offset dims idx =
     sum_list (map (\<lambda>d. idx ! d * prod_list (take d dims)) [0..<length dims])"

section \<open>The reduction kernels\<close>

text \<open>
  A kernel is run by a grid of \<open>gridDim.x\<close> blocks of \<open>blockDim.x\<close> threads; only the
  x components are used by the source. A thread knows its \<open>blockIdx.x\<close> and
  \<open>threadIdx.x\<close>. The threads of a block are grouped into warps of \<open>warpSize\<close> = 32
  consecutive threads; when \<open>blockDim.x\<close> is not a multiple of 32 the last warp has
  fewer active lanes.

  A device buffer passed as \<open>dType*\<close> is a function from positions to values: the
  kernels get no length besides \<open>N\<close>. The element type \<open>dType\<close> is a type parameter
  of the kernels and a type variable here, with the operations the kernels use: the
  addition, and the zero of \<open>dType(0)\<close>. An \<open>int\<close> element is a word of 32 bits,
  whose addition wraps around; a floating-point type is a type whose addition rounds
  and is therefore not associative. The definitions are the same for all of them.

  Two things are left open by CUDA and are parameters here: \<open>inactive\<close>, the value a
  shuffle delivers when its source lane is inside the warp but not active, and
  \<open>uninit\<close>, the content of shared memory before the first write.
\<close>

unbundle bit_operations_syntax

record launch =
  gridDim :: nat
  blockDim :: nat

definition warpSize :: nat where
  "warpSize = 32"

text \<open>
  \<open>__shfl_down(val, offset)\<close> and \<open>__shfl_xor(val, laneMask)\<close>, for all lanes of one
  warp at once: \<open>val\<close> lists the values of the active lanes, lane 0 first. A lane whose
  source lane would lie beyond the warp gets its own value back.
\<close>

definition shfl_down :: "(nat \<Rightarrow> 'a) \<Rightarrow> 'a list \<Rightarrow> nat \<Rightarrow> 'a list" where
  "shfl_down inactive val offset =
     map (\<lambda>lane. let src = lane + offset in
                  if warpSize \<le> src then val ! lane
                  else if src < length val then val ! src
                  else inactive src)
       [0..<length val]"

definition shfl_xor :: "(nat \<Rightarrow> 'a) \<Rightarrow> 'a list \<Rightarrow> nat \<Rightarrow> 'a list" where
  "shfl_xor inactive val laneMask =
     map (\<lambda>lane. let src = lane XOR laneMask in
                  if warpSize \<le> src then val ! lane
                  else if src < length val then val ! src
                  else inactive src)
       [0..<length val]"

text \<open>
  \<open>warpReduce\<close>: \<open>for (offset = warpSize / 2; offset > 0; offset /= 2)
  val += __shfl_down(val, offset)\<close>, executed by the lanes of a warp in lockstep. The
  last argument of the loop function counts the iterations; the source keeps no such
  counter, it is there to state how many steps the loop takes.
\<close>

function warpReduce_loop ::
  "(nat \<Rightarrow> 'a) \<Rightarrow> 'a::plus list \<Rightarrow> nat \<Rightarrow> nat \<Rightarrow> 'a list \<times> nat" where
  "warpReduce_loop inactive val offset steps =
     (if 0 < offset
      then warpReduce_loop inactive (map2 (+) val (shfl_down inactive val offset))
             (offset div 2) (Suc steps)
      else (val, steps))"
  by pat_completeness auto
termination
  by (relation "measure (\<lambda>(inactive, val, offset, steps). offset)") auto

declare warpReduce_loop.simps [simp del]

definition warpReduce :: "(nat \<Rightarrow> 'a) \<Rightarrow> 'a::plus list \<Rightarrow> 'a list" where
  "warpReduce inactive val = fst (warpReduce_loop inactive val (warpSize div 2) 0)"

text \<open>\<open>warpReduceAll\<close>: the same loop with \<open>__shfl_xor\<close>.\<close>

function warpReduceAll_loop ::
  "(nat \<Rightarrow> 'a) \<Rightarrow> 'a::plus list \<Rightarrow> nat \<Rightarrow> nat \<Rightarrow> 'a list \<times> nat" where
  "warpReduceAll_loop inactive val offset steps =
     (if 0 < offset
      then warpReduceAll_loop inactive (map2 (+) val (shfl_xor inactive val offset))
             (offset div 2) (Suc steps)
      else (val, steps))"
  by pat_completeness auto
termination
  by (relation "measure (\<lambda>(inactive, val, offset, steps). offset)") auto

declare warpReduceAll_loop.simps [simp del]

definition warpReduceAll :: "(nat \<Rightarrow> 'a) \<Rightarrow> 'a::plus list \<Rightarrow> 'a list" where
  "warpReduceAll inactive val = fst (warpReduceAll_loop inactive val (warpSize div 2) 0)"

text \<open>
  \<open>blockReduce\<close>, for all threads of one block at once: \<open>val\<close> lists the arguments of
  the threads, thread 0 first, and the result lists what each thread returns.
  \<^item> \<open>val1\<close>: every warp runs \<open>warpReduce\<close>; thread \<open>threadIdx.x\<close> is lane
    \<open>threadIdx.x % warpSize\<close> of warp \<open>threadIdx.x / warpSize\<close>.
  \<^item> \<open>shared\<close>: the threads with lane 0 store their value in \<open>shared[wid]\<close>. The array
    has 32 slots; a block of more than 32 warps writes past its end, which is undefined
    (\<open>None\<close>).
  \<^item> after the barrier, \<open>val2\<close>: a thread with
    \<open>threadIdx.x < blockDim.x / warpSize\<close> reads \<open>shared[lane]\<close>, every other thread
    takes 0.
  \<^item> the threads with \<open>wid == 0\<close> run \<open>warpReduce\<close> once more.
\<close>

definition blockReduce ::
  "(nat \<Rightarrow> 'a) \<Rightarrow> (nat \<Rightarrow> 'a) \<Rightarrow> 'a::{plus,zero} list \<Rightarrow> 'a list option" where
  "blockReduce inactive uninit val =
     (let blockDim_x = length val;
          val1 = map (\<lambda>threadIdx_x.
                   warpReduce inactive
                     (take warpSize (drop (threadIdx_x div warpSize * warpSize) val))
                     ! (threadIdx_x mod warpSize))
                 [0..<blockDim_x];
          shared = fold (\<lambda>threadIdx_x sh.
                      if threadIdx_x mod warpSize = 0
                      then sh(threadIdx_x div warpSize := val1 ! threadIdx_x) else sh)
                   [0..<blockDim_x] uninit;
          val2 = map (\<lambda>threadIdx_x.
                   if threadIdx_x < blockDim_x div warpSize
                   then shared (threadIdx_x mod warpSize) else 0)
                 [0..<blockDim_x]
      in if 32 * warpSize < blockDim_x then None
         else Some (warpReduce inactive (take warpSize val2) @ drop warpSize val2))"

subsection \<open>blockReduceAtomicVectorized\<close>

text \<open>
  The first loop of a thread, \<open>for (i = idx; i < N / 2; i += blockDim.x * gridDim.x)\<close>:
  the pair read through the \<open>vect2\<close> pointer at position \<open>i\<close> is the two elements
  \<open>in[2 * i]\<close> and \<open>in[2 * i + 1]\<close>. The loop does not end when the stride is 0, so
  it is a partial function; \<open>None\<close> is "does not return".
\<close>

partial_function (option) vectorized_loop ::
  "(nat \<Rightarrow> 'a::plus) \<Rightarrow> nat \<Rightarrow> nat \<Rightarrow> nat \<Rightarrow> 'a \<Rightarrow> 'a option" where
  "vectorized_loop inp N stride i partial =
     (if i < N div 2
      then vectorized_loop inp N stride (i + stride)
             (partial + (inp (2 * i) + inp (2 * i + 1)))
      else Some partial)"

declare vectorized_loop.simps [code]

text \<open>
  What one thread has in \<open>sum\<close> before it calls \<open>blockReduce\<close>: the loop, then the
  element at \<open>idx + N / 2 * 2\<close> if that is below \<open>N\<close>.
\<close>

definition thread_partial_sum ::
  "launch \<Rightarrow> (nat \<Rightarrow> 'a::{plus,zero}) \<Rightarrow> nat \<Rightarrow> nat \<Rightarrow> nat \<Rightarrow> 'a option" where
  "thread_partial_sum cfg inp N blockIdx_x threadIdx_x =
     (let idx = blockIdx_x * blockDim cfg + threadIdx_x in
      case vectorized_loop inp N (blockDim cfg * gridDim cfg) idx 0 of
        None \<Rightarrow> None
      | Some partial \<Rightarrow>
          let i = idx + N div 2 * 2 in
          Some (if i < N then partial + inp i else partial))"

text \<open>
  One block: all its threads compute their partial sums, \<open>blockReduce\<close> combines them,
  and the thread with \<open>threadIdx.x == 0\<close> adds what it got to \<open>*out\<close>.
\<close>

definition blockReduceAtomicVectorized_block ::
  "(nat \<Rightarrow> 'a) \<Rightarrow> (nat \<Rightarrow> 'a) \<Rightarrow> launch \<Rightarrow> (nat \<Rightarrow> 'a::{plus,zero}) \<Rightarrow> nat \<Rightarrow> nat \<Rightarrow> 'a
     \<Rightarrow> 'a option" where
  "blockReduceAtomicVectorized_block inactive uninit cfg inp N blockIdx_x out =
     (case those (map (thread_partial_sum cfg inp N blockIdx_x) [0..<blockDim cfg]) of
        None \<Rightarrow> None
      | Some partials \<Rightarrow>
          (case blockReduce inactive uninit partials of
             None \<Rightarrow> None
           | Some reduced \<Rightarrow>
               Some (fold (\<lambda>threadIdx_x acc.
                             if threadIdx_x = 0 then acc + reduced ! threadIdx_x else acc)
                       [0..<blockDim cfg] out)))"

text \<open>
  The grid: the blocks add to \<open>*out\<close> with \<open>atomicAdd\<close>, and the model lets them
  arrive in the order of their index. When the addition of the element type is
  commutative and associative, as that of the integer types is, the order in which the
  blocks arrive does not show in the result; for a floating-point type the model gives
  the result of one of the possible orders. The result is the final value of \<open>*out\<close>.
\<close>

definition blockReduceAtomicVectorized ::
  "(nat \<Rightarrow> 'a) \<Rightarrow> (nat \<Rightarrow> 'a) \<Rightarrow> launch \<Rightarrow> (nat \<Rightarrow> 'a::{plus,zero}) \<Rightarrow> 'a \<Rightarrow> nat
     \<Rightarrow> 'a option" where
  "blockReduceAtomicVectorized inactive uninit cfg inp out N =
     fold (\<lambda>blockIdx_x r.
             case r of
               None \<Rightarrow> None
             | Some acc \<Rightarrow>
                 blockReduceAtomicVectorized_block inactive uninit cfg inp N blockIdx_x acc)
       [0..<gridDim cfg] (Some out)"

subsection \<open>blockScatter\<close>

text \<open>
  One block of \<open>blockScatter\<close>. Before the barrier the thread with \<open>threadIdx.x == 0\<close>
  fills \<open>shared[0]\<close>: from \<open>data[idx]\<close> when \<open>blockIdx.x < blockDim.x\<close>, from
  \<open>data[idx - blockDim.x * blockIdx.x]\<close> otherwise. After the barrier every thread
  with \<open>idx < N\<close> stores \<open>shared[0]\<close> in \<open>data[idx]\<close>. The blocks run one after the
  other in the order of their index.
\<close>

definition blockScatter_block ::
  "(nat \<Rightarrow> 'a) \<Rightarrow> launch \<Rightarrow> nat \<Rightarrow> nat \<Rightarrow> (nat \<Rightarrow> 'a) \<Rightarrow> (nat \<Rightarrow> 'a)" where
  "blockScatter_block uninit cfg N blockIdx_x dat =
     (let shared =
            fold (\<lambda>threadIdx_x sh.
                    let idx = blockIdx_x * blockDim cfg + threadIdx_x in
                    if threadIdx_x = 0 \<and> blockIdx_x < blockDim cfg
                    then sh(0 := dat idx)
                    else if threadIdx_x = 0 \<and> blockDim cfg \<le> blockIdx_x
                    then sh(0 := dat (idx - blockDim cfg * blockIdx_x))
                    else sh)
              [0..<blockDim cfg] uninit
      in fold (\<lambda>threadIdx_x d.
                 let idx = blockIdx_x * blockDim cfg + threadIdx_x in
                 if idx < N then d(idx := shared 0) else d)
           [0..<blockDim cfg] dat)"

definition blockScatter ::
  "(nat \<Rightarrow> 'a) \<Rightarrow> launch \<Rightarrow> (nat \<Rightarrow> 'a) \<Rightarrow> nat \<Rightarrow> (nat \<Rightarrow> 'a)" where
  "blockScatter uninit cfg dat N =
     fold (blockScatter_block uninit cfg N) [0..<gridDim cfg] dat"

subsection \<open>softmaxKernel\<close>



section \<open>Notions used in the proofs\<close>

text \<open>
  The partial offset that the call operator has accumulated when it has consumed the
  first \<open>c\<close> indices and goes on with the rest of them.
\<close>

fun colmajor_from :: "nat \<Rightarrow> nat list \<Rightarrow> nat list \<Rightarrow> nat" where
  "colmajor_from c dims [] = 0"
| "colmajor_from c dims (i # indices) =
     i * prod_list (take c dims) + colmajor_from (Suc c) dims indices"

text \<open>
  The lanes of a warp whose number agrees with that of lane \<open>i\<close> modulo \<open>m\<close>, and the
  lane that lane \<open>i\<close> exchanges with in the butterfly step of distance \<open>offset\<close>.
\<close>

definition residue_class :: "nat \<Rightarrow> nat \<Rightarrow> nat set" where
  "residue_class m i = {j. j < 32 \<and> j mod m = i mod m}"

definition partner :: "nat \<Rightarrow> nat \<Rightarrow> nat" where
  "partner offset i = (if odd (i div offset) then i - offset else i + offset)"

text \<open>
  What lane \<open>i\<close> holds when the steps of distance \<open>2 ^ k\<close> and more are done, over
  the initial lane values \<open>v\<close>, with the additions in the order in which the loops
  perform them: each step adds to the value of a lane the value that its partner had
  before the step. Nothing is assumed of the addition.
\<close>

function butterfly :: "nat \<Rightarrow> (nat \<Rightarrow> 'a::plus) \<Rightarrow> nat \<Rightarrow> 'a" where
  "butterfly k v i =
     (if 5 \<le> k then v i
      else butterfly (Suc k) v i + butterfly (Suc k) v (partner (2 ^ k) i))"
  by pat_completeness auto
termination
  by (relation "measure (\<lambda>(k, v, i). 5 - k)") auto

declare butterfly.simps [simp del]

text \<open>
  The loop invariants of the two warp reductions: when the steps of distance \<open>2 ^ k\<close>
  and more are done, a lane holds that value; with the down shift this is so for the
  lanes below \<open>2 ^ k\<close>.
\<close>

definition all_lanes_hold :: "nat \<Rightarrow> 'a::plus list \<Rightarrow> (nat \<Rightarrow> 'a) \<Rightarrow> bool" where
  "all_lanes_hold k cur v \<longleftrightarrow>
     length cur = 32 \<and> (\<forall>i<32. cur ! i = butterfly k v i)"

definition low_lanes_hold :: "nat \<Rightarrow> 'a::plus list \<Rightarrow> (nat \<Rightarrow> 'a) \<Rightarrow> bool" where
  "low_lanes_hold k cur v \<longleftrightarrow>
     length cur = 32 \<and> (\<forall>i<2 ^ k. cur ! i = butterfly k v i)"

text \<open>
  The pair positions a thread visits in its strided loop from \<open>i\<close> on, and the part of
  the input a thread with global index \<open>idx\<close> contributes.
\<close>

definition strided :: "nat \<Rightarrow> nat \<Rightarrow> nat \<Rightarrow> nat set" where
  "strided stride M i = {j. i \<le> j \<and> j < M \<and> j mod stride = i mod stride}"

definition thread_share :: "nat \<Rightarrow> (nat \<Rightarrow> 'a::comm_monoid_add) \<Rightarrow> nat \<Rightarrow> nat \<Rightarrow> 'a" where
  "thread_share stride inp N idx =
     (\<Sum>j \<in> strided stride (N div 2) idx. inp (2 * j) + inp (2 * j + 1))
     + (if idx + N div 2 * 2 < N then inp (idx + N div 2 * 2) else 0)"

section \<open>Properties of the Tensor class\<close>

subsection \<open>Arithmetic\<close>

lemma foldl_mult_prod_list: "foldl (*) a xs = (a::nat) * prod_list xs"
  by (induction xs arbitrary: a) (simp_all add: mult.assoc)

lemma accumulate_mult_prod_list: "accumulate_mult xs = prod_list xs"
  by (simp add: accumulate_mult_def foldl_mult_prod_list)

lemma size_t_of_int_nonneg: "0 \<le> sint i \<Longrightarrow> size_t_of_int i = nat (sint i)"
proof -
  assume nonneg: "0 \<le> sint i"
  have "sint i < 2 ^ 31"
    using sint_lt [of i] by simp
  then have "sint i < 2 ^ 64"
    by simp
  with nonneg show ?thesis
    by (simp add: size_t_of_int_def)
qed

lemma prod_list_take_Suc:
  "c < length dims \<Longrightarrow> prod_list (take (Suc c) dims) = prod_list (take c dims) * dims ! c"
  by (simp add: take_Suc_conv_app_nth)

lemma offset_step_bound:
  fixes off :: nat
  assumes "off < p" "idx < d"
  shows "off + p * idx < p * d"
proof -
  have "off + p * idx < p + p * idx"
    using assms(1) by simp
  also have "\<dots> = p * Suc idx"
    by simp
  also have "\<dots> \<le> p * d"
    using assms(2) by (intro mult_le_mono2) simp
  finally show ?thesis .
qed

lemma colmajor_from_sum:
  "colmajor_from c dims xs =
     sum_list (map (\<lambda>j. xs ! j * prod_list (take (c + j) dims)) [0..<length xs])"
proof (induction xs arbitrary: c)
  case Nil
  then show ?case by simp
next
  case (Cons x xs)
  have "map (\<lambda>j. (x # xs) ! j * prod_list (take (c + j) dims)) [0..<length (x # xs)]
        = x * prod_list (take c dims)
          # map (\<lambda>j. xs ! j * prod_list (take (Suc c + j) dims)) [0..<length xs]"
    by (simp add: upt_conv_Cons map_Suc_upt [symmetric] del: upt_Suc)
  then show ?case
    using Cons.IH [of "Suc c"] by simp
qed

lemma colmajor_from_0:
  "length xs = length dims \<Longrightarrow> colmajor_from 0 dims xs = col_major_offset dims xs"
  by (simp add: colmajor_from_sum col_major_offset_def)

subsection \<open>size(dim)\<close>

text \<open>
  A negative argument also takes the error branch, through its conversion to
  \<open>size_t\<close>, for every rank a program can have.
\<close>

lemma size_dim_negative:
  assumes "sint dm < 0" "R < 2 ^ 63"
  shows "size_dim R t dm = Some ([(Cout, TensorOutOfRangeDim dm R)], 0)"
proof -
  have low: "- (2 ^ 31) \<le> sint dm"
    using sint_ge [of dm] by simp
  then have "0 \<le> sint dm + 2 ^ 64" and "sint dm + 2 ^ 64 < 2 ^ 64"
    using assms(1) by simp_all
  then have "(sint dm + 2 ^ 64) mod 2 ^ 64 = sint dm + 2 ^ 64"
    by (rule mod_pos_pos_trivial)
  then have "sint dm mod 2 ^ 64 = sint dm + 2 ^ 64"
    by simp
  then have "2 ^ 63 \<le> sint dm mod 2 ^ 64"
    using low by simp
  then have "2 ^ 63 \<le> size_t_of_int dm"
    by (simp add: size_t_of_int_def le_nat_iff)
  with assms(2) show ?thesis
    by (simp add: size_dim_def)
qed

text \<open>
  Claim C9. For a dimension argument \<open>dim \<ge> R\<close>, \<open>size(dim)\<close> prints the exception's
  message and returns 0; nothing is thrown to the caller and nothing is read out of
  range. For a valid dimension of a tensor with \<open>R\<close> dimension sizes it returns that
  dimension's size and prints nothing. A negative argument is not a valid dimension
  either, and is answered like one that is too large.
\<close>

theorem size_dim_degrades:
  assumes "length (m_dimensions t) = R"
  shows "(int R \<le> sint dm \<longrightarrow>
            size_dim R t dm = Some ([(Cout, TensorOutOfRangeDim dm R)], 0))
       \<and> (0 \<le> sint dm \<and> sint dm < int R \<longrightarrow>
            size_dim R t dm = Some ([], m_dimensions t ! nat (sint dm)))
       \<and> (sint dm < 0 \<and> R < 2 ^ 63 \<longrightarrow>
            size_dim R t dm = Some ([(Cout, TensorOutOfRangeDim dm R)], 0))"
proof (intro conjI impI)
  assume big: "int R \<le> sint dm"
  then have "0 \<le> sint dm"
    by linarith
  then have "size_t_of_int dm = nat (sint dm)"
    by (rule size_t_of_int_nonneg)
  moreover from big have "R \<le> nat (sint dm)"
    by linarith
  ultimately show "size_dim R t dm = Some ([(Cout, TensorOutOfRangeDim dm R)], 0)"
    by (simp add: size_dim_def)
next
  assume valid: "0 \<le> sint dm \<and> sint dm < int R"
  then have conv: "size_t_of_int dm = nat (sint dm)"
    by (simp add: size_t_of_int_nonneg)
  from valid have "nat (sint dm) < R"
    by linarith
  with conv assms show "size_dim R t dm = Some ([], m_dimensions t ! nat (sint dm))"
    by (simp add: size_dim_def vec_at_def)
next
  assume "sint dm < 0 \<and> R < 2 ^ 63"
  then show "size_dim R t dm = Some ([(Cout, TensorOutOfRangeDim dm R)], 0)"
    by (simp add: size_dim_negative)
qed

theorem size_dim_degrades_witness:
  "length (m_dimensions \<lparr>m_data = replicate 24 (0::int), m_dimensions = [2, 3, 4],
                          m_counter = 0, m_offset = 0\<rparr>) = 3
   \<and> int 3 \<le> sint (3 :: 32 word)
   \<and> size_dim 3 \<lparr>m_data = replicate 24 (0::int), m_dimensions = [2, 3, 4],
                 m_counter = 0, m_offset = 0\<rparr> 3
     = Some ([(Cout, TensorOutOfRangeDim 3 3)], 0)
   \<and> 0 \<le> sint (1 :: 32 word) \<and> sint (1 :: 32 word) < int 3
   \<and> size_dim 3 \<lparr>m_data = replicate 24 (0::int), m_dimensions = [2, 3, 4],
                 m_counter = 0, m_offset = 0\<rparr> 1
     = Some ([], 3)
   \<and> sint (- 1 :: 32 word) < 0 \<and> (3 :: nat) < 2 ^ 63
   \<and> size_dim 3 \<lparr>m_data = replicate 24 (0::int), m_dimensions = [2, 3, 4],
                 m_counter = 0, m_offset = 0\<rparr> (- 1)
     = Some ([(Cout, TensorOutOfRangeDim (- 1) 3)], 0)"
  using size_dim_degrades [of "\<lparr>m_data = replicate 24 (0::int), m_dimensions = [2, 3, 4],
                                m_counter = 0, m_offset = 0\<rparr>" 3 3]
        size_dim_degrades [of "\<lparr>m_data = replicate 24 (0::int), m_dimensions = [2, 3, 4],
                                m_counter = 0, m_offset = 0\<rparr>" 3 1]
        size_dim_degrades [of "\<lparr>m_data = replicate 24 (0::int), m_dimensions = [2, 3, 4],
                                m_counter = 0, m_offset = 0\<rparr>" 3 "- 1"]
  by simp

subsection \<open>operator(): a complete access with indices in range\<close>

text \<open>
  The tail of an access: the counter stands at \<open>c > 0\<close>, the offset collected so far
  is below the product of the first \<open>c\<close> dimension sizes, and as many indices remain
  as there are dimensions left. The operator then comes back with the counter reset,
  nothing printed, and the collected offset extended by the remaining indices, which
  stays inside the buffer.
\<close>

lemma paren_rest:
  assumes "m_counter t = c" "0 < c"
    and "c + Suc (length indices) = length (m_dimensions t)"
    and "m_offset t < prod_list (take c (m_dimensions t))"
    and "\<forall>j < Suc (length indices). (idx # indices) ! j < m_dimensions t ! (c + j)"
    and "length (m_data t) = prod_list (m_dimensions t)"
  shows "paren R t idx indices =
           Some (t\<lparr>m_counter := 0,
                   m_offset := m_offset t + colmajor_from c (m_dimensions t) (idx # indices)\<rparr>,
                 [], m_offset t + colmajor_from c (m_dimensions t) (idx # indices))
         \<and> m_offset t + colmajor_from c (m_dimensions t) (idx # indices) < length (m_data t)"
  using assms
proof (induction indices arbitrary: t idx c)
  case Nil
  let ?dims = "m_dimensions t"
  from Nil have len: "length ?dims = Suc c" by simp
  then have c_lt: "c < length ?dims" by simp
  from Nil.prems(5) have idx_lt: "idx < ?dims ! c" by simp
  have bl: "butlast ?dims = take c ?dims"
    using len by (simp add: butlast_conv_take)
  have full: "prod_list ?dims = prod_list (take c ?dims) * ?dims ! c"
    using prod_list_take_Suc [OF c_lt] len by simp
  have bound: "m_offset t + prod_list (take c ?dims) * idx < prod_list ?dims"
    unfolding full using Nil.prems(4) idx_lt by (rule offset_step_bound)
  have ne: "?dims \<noteq> []" using len by auto
  show ?case
    using Nil.prems(1,2,6) c_lt idx_lt bound ne bl
    by (simp add: paren_last_def vec_at_def elem_ref_def accumulate_mult_prod_list Let_def
        mult.commute)
next
  case (Cons i indices)
  let ?dims = "m_dimensions t"
  let ?t1 = "t\<lparr>m_counter := Suc c,
               m_offset := m_offset t + prod_list (take c ?dims) * idx\<rparr>"
  from Cons.prems(3) have len: "length ?dims = c + Suc (Suc (length indices))" by simp
  then have c_lt: "c < length ?dims" by simp
  from Cons.prems(5) have idx_lt: "idx < ?dims ! c" by auto
  have tk: "length ?dims - Suc (Suc (length indices)) = c"
    using len by simp
  have bound1: "m_offset ?t1 < prod_list (take (Suc c) (m_dimensions ?t1))"
    using prod_list_take_Suc [OF c_lt] Cons.prems(4) idx_lt
    by (simp add: offset_step_bound)
  have rng: "\<forall>j < Suc (length indices). (i # indices) ! j < m_dimensions ?t1 ! (Suc c + j)"
  proof (intro allI impI)
    fix j assume "j < Suc (length indices)"
    then have "(idx # i # indices) ! Suc j < ?dims ! (c + Suc j)"
      using Cons.prems(5) by (metis Suc_less_eq length_Cons)
    then show "(i # indices) ! j < m_dimensions ?t1 ! (Suc c + j)" by simp
  qed
  have IH: "paren R ?t1 i indices =
           Some (?t1\<lparr>m_counter := 0,
                   m_offset := m_offset ?t1
                     + colmajor_from (Suc c) (m_dimensions ?t1) (i # indices)\<rparr>,
                 [], m_offset ?t1 + colmajor_from (Suc c) (m_dimensions ?t1) (i # indices))
         \<and> m_offset ?t1 + colmajor_from (Suc c) (m_dimensions ?t1) (i # indices)
             < length (m_data ?t1)"
    using Cons.prems(3,6) bound1 rng
    by (intro Cons.IH) simp_all
  have step: "paren R t idx (i # indices) = paren R ?t1 i indices"
    using Cons.prems(1,2) c_lt idx_lt len
    by (simp add: vec_at_def Let_def tk accumulate_mult_prod_list)
  show ?case
    unfolding step using IH
    by (simp add: mult.commute add.assoc)
qed

text \<open>
  A whole access to a tensor of rank 2 or more whose counter is zero. The offset that
  the tensor held before plays no part: the first index overwrites it.
\<close>

lemma paren_complete:
  assumes inv: "tensor_inv R t"
    and cnt: "m_counter t = 0"
    and rk: "2 \<le> R"
    and rng: "in_range (m_dimensions t) (idx # indices)"
  shows "paren R t idx indices =
           Some (t\<lparr>m_counter := 0,
                   m_offset := col_major_offset (m_dimensions t) (idx # indices)\<rparr>,
                 [], col_major_offset (m_dimensions t) (idx # indices))
         \<and> col_major_offset (m_dimensions t) (idx # indices) < length (m_data t)"
proof -
  let ?dims = "m_dimensions t"
  from inv have len: "length ?dims = R" and dat: "length (m_data t) = prod_list ?dims"
    by (simp_all add: tensor_inv_def)
  from rng have all2: "list_all2 (<) (idx # indices) ?dims"
    by (simp add: in_range_def)
  then have n: "length (idx # indices) = R"
    using len by (simp only: list_all2_lengthD)
  from n rk obtain i rest where ind: "indices = i # rest"
    by (cases indices) auto
  have nth_lt: "\<forall>j < R. (idx # indices) ! j < ?dims ! j"
    using all2 n by (simp add: list_all2_conv_all_nth)
  then have idx_lt: "idx < ?dims ! 0"
    using rk by (metis nth_Cons_0 less_le_trans zero_less_numeral)
  let ?t1 = "t\<lparr>m_counter := Suc 0, m_offset := idx\<rparr>"
  have first: "paren R t idx (i # rest) = paren R ?t1 i rest"
    using cnt idx_lt len rk n ind by (simp add: vec_at_def Let_def)
  have take1: "prod_list (take (Suc 0) ?dims) = ?dims ! 0"
    using prod_list_take_Suc [of 0 ?dims] len rk by simp
  have rest_rng: "\<forall>j < Suc (length rest). (i # rest) ! j < m_dimensions ?t1 ! (Suc 0 + j)"
  proof (intro allI impI)
    fix j assume "j < Suc (length rest)"
    then have "Suc j < R" using n ind by simp
    with nth_lt have "(idx # indices) ! Suc j < ?dims ! Suc j" by blast
    then show "(i # rest) ! j < m_dimensions ?t1 ! (Suc 0 + j)" using ind by simp
  qed
  have "paren R ?t1 i rest =
           Some (?t1\<lparr>m_counter := 0,
                   m_offset := m_offset ?t1
                     + colmajor_from (Suc 0) (m_dimensions ?t1) (i # rest)\<rparr>,
                 [], m_offset ?t1 + colmajor_from (Suc 0) (m_dimensions ?t1) (i # rest))
         \<and> m_offset ?t1 + colmajor_from (Suc 0) (m_dimensions ?t1) (i # rest)
             < length (m_data ?t1)"
    using n ind len dat idx_lt take1 rest_rng
    by (intro paren_rest) simp_all
  moreover have "idx + colmajor_from (Suc 0) ?dims (i # rest)
                 = col_major_offset ?dims (idx # indices)"
    using colmajor_from_0 [of "idx # indices" ?dims] n len ind by simp
  ultimately show ?thesis
    using first ind by simp
qed

text \<open>
  Rank 1: the call goes straight to the one-argument overload, which finds the counter
  at zero, prints a \<open>TensorInvalidArguments\<close> although one index is what a rank-1
  tensor takes, and adds the index to the offset the tensor held before.
\<close>

lemma paren_rank1:
  assumes inv: "tensor_inv 1 t"
    and cnt: "m_counter t = 0"
    and rng: "in_range (m_dimensions t) [idx]"
    and fits: "m_offset t + idx < length (m_data t)"
  shows "paren 1 t idx [] =
           Some (t\<lparr>m_counter := 0, m_offset := m_offset t + idx\<rparr>,
                 [(Cerr, TensorInvalidArguments 1 1)], m_offset t + idx)"
proof -
  from inv obtain d where dims: "m_dimensions t = [d]"
    by (cases "m_dimensions t") (auto simp: tensor_inv_def)
  with rng have "idx < d"
    by (simp add: in_range_def)
  with dims cnt fits show ?thesis
    by (simp add: paren_last_def vec_at_def elem_ref_def accumulate_mult_def Let_def)
qed

lemma col_major_offset_rank1: "col_major_offset [d] [idx] = idx"
  by (simp add: col_major_offset_def)

text \<open>
  Claim C4. A rank-3 tensor with dimension sizes [2, 3, 4] that is between accesses
  (counter zero, any offset left over, any 24 elements): the access with the indices
  (1, 2, 3) prints nothing and returns the element at flat position 23.
\<close>

theorem paren_2_3_4_at_1_2_3:
  assumes "length d = 24"
  shows "paren 3 \<lparr>m_data = d, m_dimensions = [2, 3, 4], m_counter = 0, m_offset = off\<rparr> 1 [2, 3]
         = Some (\<lparr>m_data = d, m_dimensions = [2, 3, 4], m_counter = 0, m_offset = 23\<rparr>, [], 23)
       \<and> accessed (paren 3 \<lparr>m_data = d, m_dimensions = [2, 3, 4], m_counter = 0,
                              m_offset = off\<rparr> 1 [2, 3])
         = Some (d ! 23)"
  using assms
  by (simp add: vec_at_def elem_ref_def paren_last_def accumulate_mult_def accessed_def)

theorem paren_2_3_4_at_1_2_3_witness:
  "length [0..<24] = 24
   \<and> paren 3 \<lparr>m_data = [0..<24], m_dimensions = [2, 3, 4], m_counter = 0, m_offset = 7\<rparr>
        1 [2, 3]
     = Some (\<lparr>m_data = [0..<24], m_dimensions = [2, 3, 4], m_counter = 0, m_offset = 23\<rparr>,
             [], 23)
   \<and> accessed (paren 3 \<lparr>m_data = [0..<24], m_dimensions = [2, 3, 4], m_counter = 0,
                          m_offset = 7\<rparr> 1 [2, 3])
     = Some 23"
  using paren_2_3_4_at_1_2_3 [of "[0..<24]" 7]
  by (simp add: vec_at_def elem_ref_def paren_last_def accumulate_mult_def accessed_def)

text \<open>
  Claim C1, as the code has it. Take a tensor of rank \<open>R\<close> that satisfies the class
  invariant and is between accesses (counter zero, as every constructor and every
  complete access in range leaves it), and an index tuple in range. The
  access returns the element at flat position \<open>\<Sum>d<R. idx[d] * stride[d]\<close> with
  \<open>stride[d]\<close> the product of the sizes of the dimensions before \<open>d\<close>: the first
  dimension has stride 1 and varies fastest, as the class comment says ("the first
  dimension is arranged as it is in memory"). The position is inside the buffer. For
  rank 1, where the stored offset is added to rather than overwritten, this needs the
  stored offset to be zero.
\<close>

theorem paren_column_major:
  assumes "tensor_inv R t"
    and "m_counter t = 0"
    and "R = 1 \<longrightarrow> m_offset t = 0"
    and "in_range (m_dimensions t) (idx # indices)"
  shows "position (paren R t idx indices)
           = Some (col_major_offset (m_dimensions t) (idx # indices))
       \<and> accessed (paren R t idx indices)
           = Some (m_data t ! col_major_offset (m_dimensions t) (idx # indices))
       \<and> col_major_offset (m_dimensions t) (idx # indices) < length (m_data t)"
proof (cases "2 \<le> R")
  case True
  with assms show ?thesis
    using paren_complete [of R t idx indices]
    by (simp add: position_def accessed_def vec_at_def)
next
  case False
  from assms(1,4) have "length (idx # indices) = R"
    by (metis in_range_def list_all2_lengthD tensor_inv_def)
  with False have nil: "indices = []"
    by (cases indices) auto
  with \<open>length (idx # indices) = R\<close> have R1: "R = 1"
    by simp
  from assms(1) R1 obtain d where dims: "m_dimensions t = [d]" and len: "length (m_data t) = d"
    by (cases "m_dimensions t") (auto simp: tensor_inv_def)
  from assms(4) dims nil have lt: "idx < d"
    by (simp add: in_range_def)
  from assms(3) R1 have off: "m_offset t = 0"
    by simp
  have "paren 1 t idx [] =
           Some (t\<lparr>m_counter := 0, m_offset := m_offset t + idx\<rparr>,
                 [(Cerr, TensorInvalidArguments 1 1)], m_offset t + idx)"
    using assms(1,2,4) R1 nil off lt len by (intro paren_rank1) simp_all
  with R1 nil dims off lt len show ?thesis
    by (simp add: position_def accessed_def vec_at_def col_major_offset_rank1)
qed

theorem paren_column_major_witness:
  "tensor_inv 3 \<lparr>m_data = [0..<24], m_dimensions = [2, 3, 4], m_counter = 0, m_offset = 7\<rparr>
   \<and> in_range [2, 3, 4] [1, 0, 2]
   \<and> col_major_offset [2, 3, 4] [1, 0, 2] = 13
   \<and> position (paren 3 \<lparr>m_data = [0..<24], m_dimensions = [2, 3, 4], m_counter = 0,
                          m_offset = 7\<rparr> 1 [0, 2]) = Some 13
   \<and> accessed (paren 3 \<lparr>m_data = [0..<24], m_dimensions = [2, 3, 4], m_counter = 0,
                          m_offset = 7\<rparr> 1 [0, 2]) = Some 13"
  using paren_column_major
          [of 3 "\<lparr>m_data = [0..<24], m_dimensions = [2, 3, 4], m_counter = 0, m_offset = 7\<rparr>"
              1 "[0, 2]"]
  by (simp add: tensor_inv_def in_range_def col_major_offset_def upt_rec)

text \<open>
  Claim C1, as stated, fails. A rank-2 tensor with dimension sizes [2, 3] and the
  indices (1, 0): the row-major formula of the claim gives position \<open>1 * 3 + 0 = 3\<close>,
  the access returns position 1.
\<close>

theorem paren_not_row_major:
  "row_major_offset [2, 3] [1, 0] = 3
   \<and> position (paren 2 \<lparr>m_data = [10, 11, 12, 13, 14, 15 :: int], m_dimensions = [2, 3],
                          m_counter = 0, m_offset = 0\<rparr> 1 [0]) = Some 1
   \<and> position (paren 2 \<lparr>m_data = [10, 11, 12, 13, 14, 15 :: int], m_dimensions = [2, 3],
                          m_counter = 0, m_offset = 0\<rparr> 1 [0])
       \<noteq> Some (row_major_offset [2, 3] [1, 0])"
  by (simp add: row_major_offset_def position_def vec_at_def elem_ref_def paren_last_def
      accumulate_mult_def upt_rec)

text \<open>
  Claim C10. A tensor of rank at least 2 that satisfies the class invariant and is
  between accesses. A complete access with indices in range leaves the counter at zero,
  and a second such access on the tensor the first one leaves behind returns the same
  position and the same element as it returns on the tensor before the first access;
  it leaves the counter at zero again.
\<close>

theorem paren_no_state_leak:
  assumes "tensor_inv R t"
    and "m_counter t = 0"
    and "2 \<le> R"
    and "in_range (m_dimensions t) (i1 # rest1)"
    and "in_range (m_dimensions t) (i2 # rest2)"
  shows "counter_after (paren R t i1 rest1) = Some 0
       \<and> position (then_paren (paren R t i1 rest1) R i2 rest2)
           = Some (col_major_offset (m_dimensions t) (i2 # rest2))
       \<and> position (then_paren (paren R t i1 rest1) R i2 rest2)
           = position (paren R t i2 rest2)
       \<and> accessed (then_paren (paren R t i1 rest1) R i2 rest2)
           = accessed (paren R t i2 rest2)
       \<and> counter_after (then_paren (paren R t i1 rest1) R i2 rest2) = Some 0"
proof -
  let ?dims = "m_dimensions t"
  let ?t1 = "t\<lparr>m_counter := 0, m_offset := col_major_offset ?dims (i1 # rest1)\<rparr>"
  have first: "paren R t i1 rest1 = Some (?t1, [], col_major_offset ?dims (i1 # rest1))"
    using paren_complete [OF assms(1,2,3,4)] by simp
  have alone: "paren R t i2 rest2 =
                 Some (t\<lparr>m_counter := 0, m_offset := col_major_offset ?dims (i2 # rest2)\<rparr>,
                       [], col_major_offset ?dims (i2 # rest2))"
    using paren_complete [OF assms(1,2,3,5)] by simp
  have "tensor_inv R ?t1" and "m_counter ?t1 = 0" and "in_range (m_dimensions ?t1) (i2 # rest2)"
    using assms(1,5) by (simp_all add: tensor_inv_def)
  then have second: "paren R ?t1 i2 rest2 =
                 Some (?t1\<lparr>m_counter := 0,
                          m_offset := col_major_offset (m_dimensions ?t1) (i2 # rest2)\<rparr>,
                       [], col_major_offset (m_dimensions ?t1) (i2 # rest2))"
    using paren_complete [of R ?t1 i2 rest2] assms(3) by simp
  show ?thesis
    by (simp add: first alone second counter_after_def then_paren_def position_def
        accessed_def)
qed

theorem paren_no_state_leak_witness:
  "tensor_inv 2 \<lparr>m_data = [10, 11, 12, 13, 14, 15 :: int], m_dimensions = [2, 3],
                 m_counter = 0, m_offset = 0\<rparr>
   \<and> in_range [2, 3] [1, 2] \<and> in_range [2, 3] [0, 1]
   \<and> counter_after (paren 2 \<lparr>m_data = [10, 11, 12, 13, 14, 15 :: int], m_dimensions = [2, 3],
                              m_counter = 0, m_offset = 0\<rparr> 1 [2]) = Some 0
   \<and> accessed (then_paren (paren 2 \<lparr>m_data = [10, 11, 12, 13, 14, 15 :: int],
                                      m_dimensions = [2, 3], m_counter = 0, m_offset = 0\<rparr>
                             1 [2]) 2 0 [1]) = Some 12
   \<and> accessed (paren 2 \<lparr>m_data = [10, 11, 12, 13, 14, 15 :: int], m_dimensions = [2, 3],
                          m_counter = 0, m_offset = 0\<rparr> 0 [1]) = Some 12"
  using paren_no_state_leak
          [of 2 "\<lparr>m_data = [10, 11, 12, 13, 14, 15 :: int], m_dimensions = [2, 3],
                   m_counter = 0, m_offset = 0\<rparr>" 1 "[2]" 0 "[1]"]
  by (simp add: tensor_inv_def in_range_def counter_after_def then_paren_def accessed_def
      vec_at_def elem_ref_def paren_last_def accumulate_mult_def)

subsection \<open>operator(): a wrong number of indices\<close>

text \<open>
  Two or more indices whose number is not the rank, on a tensor between accesses that
  has a first dimension and an element: the variadic overload prints one message (the
  range error of the first index, or else the argument-count error) and returns the
  element at position 0.
\<close>

lemma paren_wrong_count:
  assumes "m_counter t = 0"
    and "m_dimensions t \<noteq> []"
    and "m_data t \<noteq> []"
    and "Suc (Suc (length indices)) \<noteq> R"
  shows "\<exists>t' e. paren R t idx (i # indices) = Some (t', [e], 0)"
  using assms
  by (cases "m_dimensions t") (auto simp: vec_at_def elem_ref_def Let_def)

text \<open>
  After such a call the counter is left at 1, and the operator is no longer between
  accesses: a following call with the right number of indices in range compares its
  indices with the wrong dimensions and reads \<open>_dimensions\<close> past its end.
\<close>

lemma paren_after_wrong_count:
  "counter_after (paren 2 \<lparr>m_data = [10, 11, 12, 13, 14, 15 :: int], m_dimensions = [2, 3],
                            m_counter = 0, m_offset = 0\<rparr> 1 [0, 0]) = Some 1
   \<and> then_paren (paren 2 \<lparr>m_data = [10, 11, 12, 13, 14, 15 :: int], m_dimensions = [2, 3],
                            m_counter = 0, m_offset = 0\<rparr> 1 [0, 0]) 2 1 [2] = None"
  by (simp add: counter_after_def then_paren_def vec_at_def elem_ref_def paren_last_def
      accumulate_mult_def)

subsection \<open>operator(): an index out of range\<close>

text \<open>
  The right number of indices, at least two, one of them not below the size of its
  dimension, on a tensor between accesses that has an element: the operator prints the
  range error of the first such index, resets the counter and returns the element at
  position 0.
\<close>

lemma paren_rest_out_of_range:
  assumes "0 < m_counter t"
    and "m_counter t + Suc (length indices) = length (m_dimensions t)"
    and "m_data t \<noteq> []"
    and "\<exists>j < Suc (length indices). m_dimensions t ! (m_counter t + j) \<le> (idx # indices) ! j"
  shows "\<exists>t' s n d x. paren R t idx indices = Some (t', [(s, TensorOutOfRange n d x)], 0)
                      \<and> m_counter t' = 0"
  using assms
proof (induction indices arbitrary: t idx)
  case Nil
  then have "m_dimensions t ! m_counter t \<le> idx" and "m_counter t < length (m_dimensions t)"
    by auto
  with Nil.prems(3) show ?case
    by (simp add: paren_last_def vec_at_def elem_ref_def)
next
  case (Cons i indices)
  let ?c = "m_counter t" and ?dims = "m_dimensions t"
  have c_lt: "?c < length ?dims"
    using Cons.prems(2) by simp
  show ?case
  proof (cases "?dims ! ?c \<le> idx")
    case True
    with c_lt Cons.prems(1,3) show ?thesis
      by (simp add: vec_at_def elem_ref_def Let_def)
  next
    case False
    let ?t1 = "t\<lparr>m_counter := ?c + 1,
                 m_offset := m_offset t + accumulate_mult
                   (take (length ?dims - length (i # indices) - 1) ?dims) * idx\<rparr>"
    from Cons.prems(4) obtain j where j: "j < Suc (Suc (length indices))"
      and bad: "?dims ! (?c + j) \<le> (idx # i # indices) ! j"
      by auto
    with False obtain j' where j': "j = Suc j'"
      by (cases j) auto
    have "\<exists>j < Suc (length indices). m_dimensions ?t1 ! (m_counter ?t1 + j) \<le> (i # indices) ! j"
      using j bad j' by (intro exI [of _ j']) simp
    then have "\<exists>t' s n d x. paren R ?t1 i indices = Some (t', [(s, TensorOutOfRange n d x)], 0)
                      \<and> m_counter t' = 0"
      using Cons.prems(1,2,3) by (intro Cons.IH) simp_all
    moreover have "paren R t idx (i # indices) = paren R ?t1 i indices"
      using False c_lt Cons.prems(1,2) by (simp add: vec_at_def Let_def)
    ultimately show ?thesis
      by simp
  qed
qed

lemma paren_out_of_range:
  assumes "m_counter t = 0"
    and "length (idx # indices) = length (m_dimensions t)"
    and "length (m_dimensions t) = R"
    and "2 \<le> R"
    and "m_data t \<noteq> []"
    and "\<exists>j < R. m_dimensions t ! j \<le> (idx # indices) ! j"
  shows "\<exists>t' s n d x. paren R t idx indices = Some (t', [(s, TensorOutOfRange n d x)], 0)
                      \<and> m_counter t' = 0"
proof -
  from assms(2,3,4) obtain i rest where ind: "indices = i # rest"
    by (cases indices) auto
  show ?thesis
  proof (cases "m_dimensions t ! 0 \<le> idx")
    case True
    with assms(1,3,4,5) ind show ?thesis
      by (simp add: vec_at_def elem_ref_def Let_def)
  next
    case False
    let ?t1 = "t\<lparr>m_counter := m_counter t + 1, m_offset := idx\<rparr>"
    from assms(6) obtain j where j: "j < R" and bad: "m_dimensions t ! j \<le> (idx # indices) ! j"
      by auto
    with False obtain j' where j': "j = Suc j'"
      by (cases j) auto
    have "\<exists>j < Suc (length rest). m_dimensions ?t1 ! (m_counter ?t1 + j) \<le> (i # rest) ! j"
      using j bad j' assms(1,2,3) ind by (intro exI [of _ j']) auto
    then have "\<exists>t' s n d x. paren R ?t1 i rest = Some (t', [(s, TensorOutOfRange n d x)], 0)
                      \<and> m_counter t' = 0"
      using assms(1,2,5) ind by (intro paren_rest_out_of_range) simp_all
    moreover have "paren R t idx (i # rest) = paren R ?t1 i rest"
      using False assms(1,2,3,4) ind by (simp add: vec_at_def Let_def)
    ultimately show ?thesis
      using ind by simp
  qed
qed

subsection \<open>operator(): a single index on a tensor of higher rank\<close>

text \<open>
  Claim C3 does not hold for a single index. A tensor of rank 2 with dimension sizes
  [2, 3] and the elements 10, ..., 15, called with the one index 1: the one-argument
  overload prints the \<open>TensorInvalidArguments\<close> message, its handler does not return,
  and the operator goes on to return the element at position
  \<open>_offset + 2 * 1 = 2\<close>, which is 12, and not the element at position 0, which is 10.
\<close>

theorem paren_single_index_falls_through:
  "paren 2 \<lparr>m_data = [10, 11, 12, 13, 14, 15 :: int], m_dimensions = [2, 3],
            m_counter = 0, m_offset = 0\<rparr> 1 []
     = Some (\<lparr>m_data = [10, 11, 12, 13, 14, 15], m_dimensions = [2, 3],
              m_counter = 0, m_offset = 2\<rparr>,
             [(Cerr, TensorInvalidArguments 1 2)], 2)
   \<and> accessed (paren 2 \<lparr>m_data = [10, 11, 12, 13, 14, 15 :: int], m_dimensions = [2, 3],
                          m_counter = 0, m_offset = 0\<rparr> 1 []) = Some 12"
  by (simp add: paren_last_def vec_at_def elem_ref_def accumulate_mult_def accessed_def)

subsection \<open>The class invariant\<close>





















text \<open>
  Beyond that the check of the constructor from two vectors compares with the low 32
  bits of the product. The product of the sizes 65536 and 65536 is \<open>2 ^ 32\<close>, the
  accumulator ends at 0, and the constructor accepts an empty buffer: the tensor it
  returns has no element where its dimension sizes ask for \<open>2 ^ 32\<close>.
\<close>

lemma Tensor_vectors_product_wraps:
  "Tensor_vectors 2 [65536, 65536] ([] :: int list)
     = Inr \<lparr>m_data = [], m_dimensions = [65536, 65536], m_counter = 0, m_offset = 0\<rparr>
   \<and> \<not> tensor_inv 2 \<lparr>m_data = ([] :: int list), m_dimensions = [65536, 65536],
                       m_counter = 0, m_offset = 0\<rparr>"
  by (simp add: Tensor_vectors_def ASSERT_eq_def accumulate_size_t_def int_of_size_t_def
      size_t_of_int_def tensor_inv_def)

text \<open>
  The initializer list is a list of \<open>int\<close>s. The product of 65536 and 65536 overflows
  the \<open>int\<close> accumulator, which is undefined. The list \<open>{-2, -3}\<close> has the product
  6, and its elements are stored as the \<open>size_t\<close> values they convert to.
\<close>

lemma Tensor_init_list_overflow:
  "Tensor_init_list 2 (0 :: int) [65536, 65536] = None"
  by (simp add: Tensor_init_list_def accumulate_int_def in_int_range_def)

lemma Tensor_init_list_negative_sizes:
  "Tensor_init_list 2 (0 :: int) [- 2, - 3]
     = Some (Inr \<lparr>m_data = replicate 6 0,
                    m_dimensions = [18446744073709551614, 18446744073709551613],
                    m_counter = 0, m_offset = 0\<rparr>)"
  by (simp add: Tensor_init_list_def accumulate_int_def in_int_range_def ASSERT_eq_def
      size_t_of_int_def)



text \<open>Every constructor leaves the counter and the offset at zero.\<close>

lemma constructors_reset_counter:
  "m_counter (Tensor_default R :: 'a Tensor) = 0"
  "Tensor_init_list R z dims = Some (Inr t) \<Longrightarrow> m_counter t = 0"
  "m_counter (Tensor_expression e) = 0"
  "Tensor_vectors R dims' dat = Inr t' \<Longrightarrow> m_counter t' = 0"
  by (auto simp: Tensor_default_def Tensor_init_list_def Tensor_expression_def
      Tensor_vectors_def Let_def split: option.splits if_splits)




section \<open>Properties of the reduction kernels\<close>

subsection \<open>The exchange partner of a lane\<close>

text \<open>
  The exclusive or with a power of two flips one bit: it adds the power when the bit
  is clear and subtracts it when the bit is set. All offsets of the butterfly are
  powers of two.
\<close>

lemma unset_bit_nat_sub:
  assumes "odd (i div 2 ^ k)"
  shows "unset_bit k (i::nat) = i - 2 ^ k"
proof -
  have "bit i k"
    using assms by (simp add: bit_iff_odd)
  then have b: "bit (int i) k"
    by (simp only: bit_of_nat_iff_bit)
  have "i div 2 ^ k \<noteq> 0"
    using assms by (metis even_zero)
  then have le: "2 ^ k \<le> i"
    by (simp add: div_eq_0_iff not_less)
  have "int (unset_bit k i) = unset_bit k (int i)"
    by (rule of_nat_unset_bit_eq)
  also have "\<dots> = int i - 2 ^ k"
    using b by (simp add: unset_bit_eq)
  also have "\<dots> = int (i - 2 ^ k)"
    using le by (simp add: of_nat_diff)
  finally show ?thesis
    by (simp only: of_nat_eq_iff)
qed

lemma xor_power_of_two:
  "(i::nat) XOR 2 ^ k = (if odd (i div 2 ^ k) then i - 2 ^ k else i + 2 ^ k)"
proof -
  have "i XOR 2 ^ k = flip_bit k i"
    by (simp add: flip_bit_eq_xor)
  also have "\<dots> = (if odd (i div 2 ^ k) then i - 2 ^ k else i + 2 ^ k)"
    by (simp add: flip_bit_eq_if set_bit_eq unset_bit_nat_sub bit_iff_odd)
  finally show ?thesis .
qed


subsection \<open>Residue classes of lanes\<close>

text \<open>
  The residue class of lane \<open>i\<close> modulo \<open>offset\<close> is the disjoint union of the
  classes modulo \<open>2 * offset\<close> of lane \<open>i\<close> and of its partner.
\<close>

lemma finite_residue_class [simp]: "finite (residue_class m i)"
  by (simp add: residue_class_def)

lemma mod_double_iff:
  fixes x y offset :: nat
  assumes pos: "0 < offset"
  shows "x mod (2 * offset) = y mod (2 * offset)
         \<longleftrightarrow> x mod offset = y mod offset \<and> (odd (x div offset) \<longleftrightarrow> odd (y div offset))"
proof -
  have decomp: "z mod (2 * offset) = offset * (z div offset mod 2) + z mod offset" for z
    using mod_mult2_eq [of z offset 2] by (simp add: mult.commute)
  have low: "(offset * c + z mod offset) mod offset = z mod offset" for c z
    by simp
  show ?thesis
  proof
    assume eq: "x mod (2 * offset) = y mod (2 * offset)"
    then have sum_eq: "offset * (x div offset mod 2) + x mod offset
                     = offset * (y div offset mod 2) + y mod offset"
      by (simp only: decomp)
    then have "(offset * (x div offset mod 2) + x mod offset) mod offset
             = (offset * (y div offset mod 2) + y mod offset) mod offset"
      by simp
    then have m: "x mod offset = y mod offset"
      by (simp only: low)
    with sum_eq have "offset * (x div offset mod 2) = offset * (y div offset mod 2)"
      by simp
    with pos have "x div offset mod 2 = y div offset mod 2"
      by simp
    then have "odd (x div offset) \<longleftrightarrow> odd (y div offset)"
      by (simp add: odd_iff_mod_2_eq_one)
    with m show "x mod offset = y mod offset \<and> (odd (x div offset) \<longleftrightarrow> odd (y div offset))"
      by simp
  next
    assume "x mod offset = y mod offset \<and> (odd (x div offset) \<longleftrightarrow> odd (y div offset))"
    then have "x mod offset = y mod offset" and "x div offset mod 2 = y div offset mod 2"
      by (simp_all add: mod_2_eq_odd)
    then show "x mod (2 * offset) = y mod (2 * offset)"
      by (simp only: decomp)
  qed
qed

lemma partner_mod:
  assumes "0 < offset"
  shows "partner offset i mod offset = i mod offset"
proof (cases "odd (i div offset)")
  case True
  then have "i div offset \<noteq> 0"
    by (metis even_zero)
  then have "offset \<le> i"
    using assms by (simp add: div_eq_0_iff not_less)
  then show ?thesis
    using True by (simp add: partner_def le_mod_geq)
next
  case False
  then show ?thesis
    by (simp add: partner_def)
qed

lemma partner_div:
  assumes "0 < offset"
  shows "odd (partner offset i div offset) \<longleftrightarrow> even (i div offset)"
proof (cases "odd (i div offset)")
  case True
  then have "i div offset \<noteq> 0"
    by (metis even_zero)
  then have "offset \<le> i"
    using assms by (simp add: div_eq_0_iff not_less)
  then have "i div offset = Suc ((i - offset) div offset)"
    using assms by (simp add: le_div_geq)
  then show ?thesis
    using True by (simp add: partner_def)
next
  case False
  then show ?thesis
    using assms by (simp add: partner_def)
qed

lemma residue_class_split:
  assumes "0 < offset"
  shows "residue_class offset i =
           residue_class (2 * offset) i \<union> residue_class (2 * offset) (partner offset i)"
    and "residue_class (2 * offset) i \<inter> residue_class (2 * offset) (partner offset i) = {}"
  using assms partner_mod [OF assms, of i] partner_div [OF assms, of i]
  by (auto simp: residue_class_def mod_double_iff)

lemma partner_in_warp:
  assumes k: "k \<le> 4" and i: "i < 32"
  shows "partner (2 ^ k) i < 32"
proof (cases "odd (i div 2 ^ k)")
  case True
  with i show ?thesis by (simp add: partner_def)
next
  case False
  have n: "(32::nat) = 2 * 2 ^ (4 - k) * 2 ^ k"
    using k by (simp flip: power_add)
  have "i div 2 ^ k < 2 * 2 ^ (4 - k)"
    using i by (subst (asm) n) (simp add: div_less_iff_less_mult)
  with False have "Suc (i div 2 ^ k) < 2 * 2 ^ (4 - k)"
    by (metis Suc_lessI even_Suc dvd_triv_left)
  then have "(i + 2 ^ k) div 2 ^ k < 2 * 2 ^ (4 - k)"
    by simp
  moreover have "(0::nat) < 2 ^ k"
    by simp
  ultimately have "i + 2 ^ k < 2 * 2 ^ (4 - k) * 2 ^ k"
    by (simp only: div_less_iff_less_mult)
  with False show ?thesis
    by (simp add: partner_def flip: n)
qed

subsection \<open>The two warp reductions\<close>

text \<open>One step of each loop takes the invariant from \<open>Suc k\<close> to \<open>k\<close>.\<close>

lemma shfl_xor_step:
  assumes k: "k \<le> 4" and hold: "all_lanes_hold (Suc k) cur v"
  shows "all_lanes_hold k (map2 (+) cur (shfl_xor inactive cur (2 ^ k))) v"
proof -
  from hold have len: "length cur = 32"
    and lanes: "\<And>i. i < 32 \<Longrightarrow> cur ! i = butterfly (Suc k) v i"
    by (simp_all add: all_lanes_hold_def)
  have "map2 (+) cur (shfl_xor inactive cur (2 ^ k)) ! i = butterfly k v i"
    if i: "i < 32" for i
  proof -
    have p: "partner (2 ^ k) i < 32"
      using k i by (rule partner_in_warp)
    have src: "i XOR 2 ^ k = partner (2 ^ k) i"
      by (simp add: xor_power_of_two partner_def)
    have "map2 (+) cur (shfl_xor inactive cur (2 ^ k)) ! i = cur ! i + cur ! partner (2 ^ k) i"
      using i p len by (simp add: shfl_xor_def src warpSize_def)
    also have "\<dots> = butterfly (Suc k) v i + butterfly (Suc k) v (partner (2 ^ k) i)"
      using i p by (simp add: lanes)
    also have "\<dots> = butterfly k v i"
      using k by (subst (3) butterfly.simps) simp
    finally show ?thesis .
  qed
  with len show ?thesis
    by (simp add: all_lanes_hold_def shfl_xor_def)
qed

lemma shfl_down_step:
  assumes k: "k \<le> 4" and hold: "low_lanes_hold (Suc k) cur v"
  shows "low_lanes_hold k (map2 (+) cur (shfl_down inactive cur (2 ^ k))) v"
proof -
  from hold have len: "length cur = 32"
    and lanes: "\<And>i. i < 2 * 2 ^ k \<Longrightarrow> cur ! i = butterfly (Suc k) v i"
    by (simp_all add: low_lanes_hold_def)
  have bound: "2 * 2 ^ k \<le> (32::nat)"
  proof -
    have "(2::nat) * 2 ^ k = 2 ^ Suc k" by simp
    also have "\<dots> \<le> 2 ^ 5" using k by (intro power_increasing) simp_all
    finally show ?thesis by simp
  qed
  have "map2 (+) cur (shfl_down inactive cur (2 ^ k)) ! i = butterfly k v i"
    if i: "i < 2 ^ k" for i
  proof -
    have p: "partner (2 ^ k) i = i + 2 ^ k"
      using i by (simp add: partner_def)
    have lt: "i + 2 ^ k < 2 * 2 ^ k" "i < 2 * 2 ^ k"
      using i by simp_all
    with bound have lt32: "i + 2 ^ k < 32" "i < 32"
      by linarith+
    have "map2 (+) cur (shfl_down inactive cur (2 ^ k)) ! i = cur ! i + cur ! (i + 2 ^ k)"
      using lt32 len by (simp add: shfl_down_def warpSize_def)
    also have "\<dots> = butterfly (Suc k) v i + butterfly (Suc k) v (partner (2 ^ k) i)"
      using lt by (simp add: lanes p)
    also have "\<dots> = butterfly k v i"
      using k by (subst (3) butterfly.simps) simp
    finally show ?thesis .
  qed
  with len show ?thesis
    by (simp add: low_lanes_hold_def shfl_down_def)
qed

text \<open>
  The loops, started at half of a power of two up to 32: they end when all steps are
  done, after as many steps as the exponent.
\<close>

lemma warpReduceAll_loop_correct:
  assumes "k \<le> 5" "all_lanes_hold k cur v"
  shows "all_lanes_hold 0 (fst (warpReduceAll_loop inactive cur (2 ^ k div 2) steps)) v
       \<and> snd (warpReduceAll_loop inactive cur (2 ^ k div 2) steps) = steps + k"
  using assms
proof (induction k arbitrary: cur steps)
  case 0
  then show ?case
    by (simp add: warpReduceAll_loop.simps)
next
  case (Suc k)
  then have k4: "k \<le> 4" by simp
  from k4 Suc.prems(2)
  have "all_lanes_hold k (map2 (+) cur (shfl_xor inactive cur (2 ^ k))) v"
    by (rule shfl_xor_step)
  with k4 have "all_lanes_hold 0
       (fst (warpReduceAll_loop inactive (map2 (+) cur (shfl_xor inactive cur (2 ^ k)))
               (2 ^ k div 2) (Suc steps))) v
     \<and> snd (warpReduceAll_loop inactive (map2 (+) cur (shfl_xor inactive cur (2 ^ k)))
               (2 ^ k div 2) (Suc steps)) = Suc steps + k"
    by (intro Suc.IH) simp_all
  then show ?case
    by (subst (1 2) warpReduceAll_loop.simps) simp
qed

lemma warpReduce_loop_correct:
  assumes "k \<le> 5" "low_lanes_hold k cur v"
  shows "low_lanes_hold 0 (fst (warpReduce_loop inactive cur (2 ^ k div 2) steps)) v
       \<and> snd (warpReduce_loop inactive cur (2 ^ k div 2) steps) = steps + k"
  using assms
proof (induction k arbitrary: cur steps)
  case 0
  then show ?case
    by (simp add: warpReduce_loop.simps)
next
  case (Suc k)
  then have k4: "k \<le> 4" by simp
  from k4 Suc.prems(2)
  have "low_lanes_hold k (map2 (+) cur (shfl_down inactive cur (2 ^ k))) v"
    by (rule shfl_down_step)
  with k4 have "low_lanes_hold 0
       (fst (warpReduce_loop inactive (map2 (+) cur (shfl_down inactive cur (2 ^ k)))
               (2 ^ k div 2) (Suc steps))) v
     \<and> snd (warpReduce_loop inactive (map2 (+) cur (shfl_down inactive cur (2 ^ k)))
               (2 ^ k div 2) (Suc steps)) = Suc steps + k"
    by (intro Suc.IH) simp_all
  then show ?case
    by (subst (1 2) warpReduce_loop.simps) simp
qed

text \<open>
  For a full warp and any element type, whatever its addition: \<open>warpReduce\<close> takes
  5 steps and leaves in lane 0 what the butterfly of all steps gives for lane 0;
  \<open>warpReduceAll\<close> takes 5 steps and leaves in every lane what the butterfly gives
  for that lane.
\<close>

lemma warpReduce_butterfly:
  fixes val :: "'a::plus list"
  assumes "length val = warpSize"
  shows "warpReduce inactive val ! 0 = butterfly 0 (\<lambda>j. val ! j) 0"
    and "length (warpReduce inactive val) = warpSize"
    and "snd (warpReduce_loop inactive val (warpSize div 2) 0) = 5"
proof -
  from assms have len: "length val = 32" by (simp add: warpSize_def)
  have "low_lanes_hold 5 val (\<lambda>j. val ! j)"
    using len by (simp add: low_lanes_hold_def butterfly.simps)
  then have "low_lanes_hold 0 (fst (warpReduce_loop inactive val (2 ^ 5 div 2) 0)) (\<lambda>j. val ! j)
       \<and> snd (warpReduce_loop inactive val (2 ^ 5 div 2) 0) = 0 + 5"
    by (intro warpReduce_loop_correct) simp_all
  then show "warpReduce inactive val ! 0 = butterfly 0 (\<lambda>j. val ! j) 0"
    and "length (warpReduce inactive val) = warpSize"
    and "snd (warpReduce_loop inactive val (warpSize div 2) 0) = 5"
    by (simp_all add: warpReduce_def warpSize_def low_lanes_hold_def)
qed

lemma warpReduceAll_butterfly:
  fixes val :: "'a::plus list"
  assumes "length val = warpSize"
  shows "\<forall>lane<warpSize. warpReduceAll inactive val ! lane = butterfly 0 (\<lambda>j. val ! j) lane"
    and "length (warpReduceAll inactive val) = warpSize"
    and "snd (warpReduceAll_loop inactive val (warpSize div 2) 0) = 5"
proof -
  from assms have len: "length val = 32" by (simp add: warpSize_def)
  have "all_lanes_hold 5 val (\<lambda>j. val ! j)"
    using len by (simp add: all_lanes_hold_def butterfly.simps)
  then have "all_lanes_hold 0 (fst (warpReduceAll_loop inactive val (2 ^ 5 div 2) 0)) (\<lambda>j. val ! j)
       \<and> snd (warpReduceAll_loop inactive val (2 ^ 5 div 2) 0) = 0 + 5"
    by (intro warpReduceAll_loop_correct) simp_all
  then show "\<forall>lane<warpSize. warpReduceAll inactive val ! lane = butterfly 0 (\<lambda>j. val ! j) lane"
    and "length (warpReduceAll inactive val) = warpSize"
    and "snd (warpReduceAll_loop inactive val (warpSize div 2) 0) = 5"
    by (simp_all add: warpReduceAll_def warpSize_def all_lanes_hold_def)
qed

text \<open>
  When the addition is associative and commutative, the butterfly gives a lane the sum
  over its residue class modulo \<open>2 ^ k\<close>, and in the end the sum of all lanes.
\<close>

lemma residue_class_32: "i < 32 \<Longrightarrow> residue_class 32 i = {i}"
  by (auto simp: residue_class_def)

lemma residue_class_1: "residue_class (Suc 0) i = {..<32}"
  by (auto simp: residue_class_def)

lemma butterfly_sum:
  fixes v :: "nat \<Rightarrow> 'a::comm_monoid_add"
  shows "i < 32 \<Longrightarrow> butterfly k v i = sum v (residue_class (2 ^ min k 5) i)"
proof (induction k v i rule: butterfly.induct)
  case (1 k v i)
  show ?case
  proof (cases "5 \<le> k")
    case True
    with "1.prems" show ?thesis
      by (subst butterfly.simps) (simp add: min_def residue_class_32)
  next
    case False
    then have k: "k \<le> 4" by simp
    have p: "partner (2 ^ k) i < 32"
      using k "1.prems" by (rule partner_in_warp)
    have "butterfly k v i = butterfly (Suc k) v i + butterfly (Suc k) v (partner (2 ^ k) i)"
      using False by (subst butterfly.simps) simp
    also have "\<dots> = sum v (residue_class (2 * 2 ^ k) i)
                    + sum v (residue_class (2 * 2 ^ k) (partner (2 ^ k) i))"
      using "1.IH" [OF False] "1.prems" p k by (simp add: min_def)
    also have "\<dots> = sum v (residue_class (2 ^ k) i)"
      using residue_class_split [of "2 ^ k" i]
      by (simp add: sum.union_disjoint)
    finally show ?thesis
      using k by (simp add: min_def)
  qed
qed

lemma sum_list_warp:
  fixes val :: "'a::comm_monoid_add list"
  shows "length val = 32 \<Longrightarrow> sum_list val = (\<Sum>j<32. val ! j)"
  by (simp add: sum_list_sum_nth atLeast0LessThan)

lemma warpReduce_lane0:
  fixes val :: "'a::comm_monoid_add list"
  assumes "length val = warpSize"
  shows "warpReduce inactive val ! 0 = sum_list val"
    and "length (warpReduce inactive val) = warpSize"
    and "snd (warpReduce_loop inactive val (warpSize div 2) 0) = 5"
  using warpReduce_butterfly [OF assms, of inactive] assms
  by (simp_all add: butterfly_sum residue_class_1 sum_list_warp warpSize_def)

lemma warpReduceAll_every_lane:
  fixes val :: "'a::comm_monoid_add list"
  assumes "length val = warpSize"
  shows "\<forall>lane<warpSize. warpReduceAll inactive val ! lane = sum_list val"
    and "length (warpReduceAll inactive val) = warpSize"
    and "snd (warpReduceAll_loop inactive val (warpSize div 2) 0) = 5"
  using warpReduceAll_butterfly [OF assms, of inactive] assms
  by (simp_all add: butterfly_sum residue_class_1 sum_list_warp warpSize_def)

text \<open>
  With \<open>int\<close> lanes the sum is the sum modulo \<open>2 ^ 32\<close>: 32 lanes that each hold
  \<open>2 ^ 27\<close> leave 0 in lane 0.
\<close>

lemma warpReduce_int_wraps:
  "warpReduce inactive (replicate 32 (2 ^ 27 :: 32 word)) ! 0 = 0"
proof -
  have "warpReduce inactive (replicate 32 (2 ^ 27 :: 32 word)) ! 0
        = sum_list (replicate 32 (2 ^ 27 :: 32 word))"
    by (rule warpReduce_lane0) (simp add: warpSize_def)
  also have "\<dots> = 0"
    by (simp add: sum_list_replicate)
  finally show ?thesis .
qed

text \<open>
  Claim C8. For the values of the 32 lanes of a full warp, of any element type whose
  addition is associative and commutative, \<open>warpReduce\<close> leaves the sum of all of
  them, taken in that type, in lane 0 and \<open>warpReduceAll\<close> leaves that sum in every
  lane, whatever a shuffle delivers from an inactive lane. Each loop takes 5 steps, the
  binary logarithm of the warp size. The integer types with their wrap-around are such
  types. For a type whose addition rounds, the lemmas \<open>warpReduce_butterfly\<close> and
  \<open>warpReduceAll_butterfly\<close> say in which order the 32 values are added.
\<close>

theorem warp_reductions:
  fixes val :: "'a::comm_monoid_add list"
  assumes "length val = warpSize"
  shows "warpReduce inactive val ! 0 = sum_list val
       \<and> (\<forall>lane<warpSize. warpReduceAll inactive val ! lane = sum_list val)
       \<and> snd (warpReduce_loop inactive val (warpSize div 2) 0) = 5
       \<and> snd (warpReduceAll_loop inactive val (warpSize div 2) 0) = 5
       \<and> 2 ^ 5 = warpSize"
  using warpReduce_lane0 [OF assms, of inactive] warpReduceAll_every_lane [OF assms, of inactive]
  by (simp add: warpSize_def)

theorem warp_reductions_witness:
  "length (map of_nat [1..<33] :: 32 word list) = warpSize
   \<and> warpReduce (\<lambda>_. 0) (map of_nat [1..<33] :: 32 word list) ! 0 = 528
   \<and> 7 < warpSize
   \<and> warpReduceAll (\<lambda>_. 0) (map of_nat [1..<33] :: 32 word list) ! 7 = 528
   \<and> snd (warpReduce_loop (\<lambda>_. 0) (map of_nat [1..<33] :: 32 word list)
            (warpSize div 2) 0) = 5
   \<and> snd (warpReduceAll_loop (\<lambda>_. 0) (map of_nat [1..<33] :: 32 word list)
            (warpSize div 2) 0) = 5"
proof -
  let ?val = "map of_nat [1..<33] :: 32 word list"
  have len: "length ?val = warpSize"
    by (simp add: warpSize_def)
  have total: "sum_list ?val = 528"
    by (simp add: upt_rec)
  have lane: "7 < warpSize"
    by (simp add: warpSize_def)
  from warp_reductions [OF len, of "\<lambda>_. 0"] lane
  have "warpReduce (\<lambda>_. 0) ?val ! 0 = sum_list ?val"
    and "warpReduceAll (\<lambda>_. 0) ?val ! 7 = sum_list ?val"
    and "snd (warpReduce_loop (\<lambda>_. 0) ?val (warpSize div 2) 0) = 5"
    and "snd (warpReduceAll_loop (\<lambda>_. 0) ?val (warpSize div 2) 0) = 5"
    by blast+
  with len lane total show ?thesis
    by (simp only: simp_thms)
qed

subsection \<open>blockReduce\<close>

text \<open>
  After the loop over the threads of a block, slot \<open>w\<close> of the shared array holds the
  value of lane 0 of warp \<open>w\<close>, for every warp that has a thread.
\<close>

lemma fold_shared:
  "fold (\<lambda>threadIdx_x sh. if threadIdx_x mod warpSize = 0
                            then sh(threadIdx_x div warpSize := f threadIdx_x) else sh)
        [0..<n] uninit
   = (\<lambda>slot. if slot * warpSize < n then f (slot * warpSize) else uninit slot)"
proof (induction n)
  case 0
  then show ?case by simp
next
  case (Suc n)
  show ?case
  proof (cases "n mod warpSize = 0")
    case True
    then have n: "n = n div warpSize * warpSize"
      by (simp add: mod_eq_0_iff_dvd)
    have "slot * warpSize < Suc n \<longleftrightarrow> slot * warpSize < n \<or> slot = n div warpSize" for slot
      using True by (auto simp: warpSize_def)
    with True n show ?thesis
      by (auto simp: Suc.IH fun_eq_iff)
  next
    case False
    then have "slot * warpSize < Suc n \<longleftrightarrow> slot * warpSize < n" for slot
      by (auto simp: warpSize_def less_Suc_eq)
    with False show ?thesis
      by (simp add: Suc.IH)
  qed
qed

lemma sum_list_warps:
  assumes "k * warpSize \<le> length val"
  shows "(\<Sum>w<k. sum_list (take warpSize (drop (w * warpSize) (val::'a::comm_monoid_add list))))
         = sum_list (take (k * warpSize) val)"
proof -
  have "sum_list (take warpSize (drop (w * warpSize) val))
        = sum ((!) val) {w * warpSize ..< w * warpSize + warpSize}" if "w < k" for w
  proof -
    from that have "Suc w \<le> k" by simp
    then have "Suc w * warpSize \<le> k * warpSize" by (rule mult_le_mono1)
    then have le: "w * warpSize + warpSize \<le> length val"
      using assms by (simp add: add.commute)
    then have len: "length (take warpSize (drop (w * warpSize) val)) = warpSize"
      by simp
    have "sum_list (take warpSize (drop (w * warpSize) val))
          = (\<Sum>j = 0..<warpSize. take warpSize (drop (w * warpSize) val) ! j)"
      by (simp only: sum_list_sum_nth len)
    also have "\<dots> = (\<Sum>j = 0..<warpSize. val ! (w * warpSize + j))"
      using le by (intro sum.cong) simp_all
    also have "\<dots> = sum ((!) val) {w * warpSize ..< w * warpSize + warpSize}"
      using sum.shift_bounds_nat_ivl [of "(!) val" 0 "w * warpSize" warpSize]
      by (simp add: add.commute)
    finally show ?thesis .
  qed
  then have "(\<Sum>w<k. sum_list (take warpSize (drop (w * warpSize) val)))
           = (\<Sum>w<k. sum ((!) val) {w * warpSize ..< w * warpSize + warpSize})"
    by (intro sum.cong) simp_all
  also have "\<dots> = sum ((!) val) {..<k * warpSize}"
    by (rule sum.nat_group)
  also have "\<dots> = (\<Sum>j = 0..<length (take (k * warpSize) val). take (k * warpSize) val ! j)"
    using assms by (simp add: atLeast0LessThan min_def)
  also have "\<dots> = sum_list (take (k * warpSize) val)"
    by (simp only: sum_list_sum_nth)
  finally show ?thesis .
qed

text \<open>
  A block of \<open>k\<close> full warps followed by \<open>r < 32\<close> further threads, at most 1024
  threads in all: thread 0 gets the sum of the first \<open>k * 32\<close> arguments. What the
  threads of the trailing partial warp bring is stored in a slot that no thread reads,
  because \<open>blockDim.x / warpSize\<close> rounds down.
\<close>

lemma blockReduce_thread0:
  fixes val :: "'a::comm_monoid_add list"
  assumes len: "length val = k * warpSize + r" and k1: "1 \<le> k" and r: "r < warpSize"
    and launchable: "length val \<le> 32 * warpSize"
  shows "\<exists>reduced. blockReduce inactive uninit val = Some reduced
           \<and> reduced ! 0 = sum_list (take (k * warpSize) val)"
proof -
  define W where "W w = take warpSize (drop (w * warpSize) val)" for w
  define val1 where "val1 = map (\<lambda>threadIdx_x.
                   warpReduce inactive (W (threadIdx_x div warpSize)) ! (threadIdx_x mod warpSize))
                 [0..<length val]"
  define shared where "shared = fold (\<lambda>threadIdx_x sh.
                      if threadIdx_x mod warpSize = 0
                      then sh(threadIdx_x div warpSize := val1 ! threadIdx_x) else sh)
                   [0..<length val] uninit"
  define val2 where "val2 = map (\<lambda>threadIdx_x.
                   if threadIdx_x < length val div warpSize
                   then shared (threadIdx_x mod warpSize) else 0)
                 [0..<length val]"
  have ws: "warpSize = 32" by (simp add: warpSize_def)
  have bd: "length val div warpSize = k"
    using len r by (simp add: ws)
  have k32: "k \<le> 32"
    using len launchable by (simp add: ws)
  have full: "k * warpSize \<le> length val"
    using len by simp
  have big: "\<not> 32 * warpSize < length val"
    using launchable by simp
  have ge: "warpSize \<le> length val"
    using len k1 by (simp add: ws)
  have W_len: "length (W w) = warpSize" if "w < k" for w
  proof -
    from that have "Suc w \<le> k" by simp
    then have "Suc w * warpSize \<le> k * warpSize" by (rule mult_le_mono1)
    then show ?thesis using full by (simp add: W_def)
  qed
  have slot: "shared w = sum_list (W w)" if "w < k" for w
  proof -
    from that have lt: "w * warpSize < length val"
      using len by (simp add: ws)
    have "shared w = val1 ! (w * warpSize)"
      using lt by (simp add: shared_def fold_shared)
    also have "\<dots> = warpReduce inactive (W w) ! 0"
      using lt by (simp add: val1_def ws)
    also have "\<dots> = sum_list (W w)"
      using W_len [OF that] by (rule warpReduce_lane0)
    finally show ?thesis .
  qed
  have first_warp: "take warpSize val2 = map (\<lambda>t. if t < k then sum_list (W t) else 0) [0..<warpSize]"
  proof -
    have "take warpSize val2 = map (\<lambda>threadIdx_x.
                   if threadIdx_x < length val div warpSize
                   then shared (threadIdx_x mod warpSize) else 0) [0..<warpSize]"
      using ge by (simp add: val2_def take_map min_def)
    also have "\<dots> = map (\<lambda>t. if t < k then sum_list (W t) else 0) [0..<warpSize]"
      using slot by (intro map_cong) (auto simp: bd)
    finally show ?thesis .
  qed
  have "sum_list (take warpSize val2) = (\<Sum>t<warpSize. if t < k then sum_list (W t) else 0)"
    by (simp add: first_warp interv_sum_list_conv_sum_set_nat atLeast0LessThan)
  also have "\<dots> = (\<Sum>t \<in> {..<warpSize} \<inter> {t. t < k}. sum_list (W t))"
    by (simp add: sum.inter_restrict)
  also have "{..<warpSize} \<inter> {t. t < k} = {..<k}"
    using k32 by (auto simp: ws)
  also have "(\<Sum>t<k. sum_list (W t)) = sum_list (take (k * warpSize) val)"
    unfolding W_def using full by (rule sum_list_warps)
  finally have total: "sum_list (take warpSize val2) = sum_list (take (k * warpSize) val)" .
  have l2: "length (take warpSize val2) = warpSize"
    using ge by (simp add: val2_def)
  have "(warpReduce inactive (take warpSize val2) @ drop warpSize val2) ! 0
        = warpReduce inactive (take warpSize val2) ! 0"
    using warpReduce_lane0(2) [OF l2, of inactive] by (simp add: nth_append ws)
  also have "\<dots> = sum_list (take warpSize val2)"
    using l2 by (rule warpReduce_lane0)
  finally have "(warpReduce inactive (take warpSize val2) @ drop warpSize val2) ! 0
                = sum_list (take (k * warpSize) val)"
    using total by simp
  moreover have "blockReduce inactive uninit val
                 = Some (warpReduce inactive (take warpSize val2) @ drop warpSize val2)"
    unfolding blockReduce_def Let_def val2_def shared_def val1_def W_def
    using big by simp
  ultimately show ?thesis
    by simp
qed

subsection \<open>The partial sum of a thread\<close>

lemma finite_strided [simp]: "finite (strided stride M i)"
  by (simp add: strided_def)

lemma strided_empty: "M \<le> i \<Longrightarrow> strided stride M i = {}"
  by (auto simp: strided_def)

lemma strided_step:
  assumes "0 < stride" "i < M"
  shows "strided stride M i = insert i (strided stride M (i + stride))"
proof -
  have "i + stride \<le> j" if "i \<le> j" "j \<noteq> i" "j mod stride = i mod stride" for j
  proof -
    from that have "i < j" by simp
    moreover from that have "stride dvd j - i"
      by (metis mod_eq_dvd_iff_nat)
    ultimately have "stride \<le> j - i"
      by (simp add: dvd_imp_le)
    with \<open>i < j\<close> show ?thesis by simp
  qed
  with assms show ?thesis
    by (auto simp: strided_def)
qed

lemma vectorized_loop_closed:
  assumes "0 < stride"
  shows "vectorized_loop inp N stride i partial
         = Some (partial + (\<Sum>j \<in> strided stride (N div 2) i. inp (2 * j) + inp (2 * j + 1)))"
proof (induction "N div 2 - i" arbitrary: i partial rule: less_induct)
  case less
  show ?case
  proof (cases "i < N div 2")
    case True
    then have "N div 2 - (i + stride) < N div 2 - i"
      using assms by simp
    then have "vectorized_loop inp N stride (i + stride) (partial + (inp (2 * i) + inp (2 * i + 1)))
         = Some (partial + (inp (2 * i) + inp (2 * i + 1))
                 + (\<Sum>j \<in> strided stride (N div 2) (i + stride). inp (2 * j) + inp (2 * j + 1)))"
      by (rule less)
    moreover have "i \<notin> strided stride (N div 2) (i + stride)"
      using assms by (simp add: strided_def)
    ultimately show ?thesis
      using True strided_step [OF assms True]
      by (subst vectorized_loop.simps) (simp add: add.assoc)
  next
    case False
    then show ?thesis
      by (subst vectorized_loop.simps) (simp add: strided_empty)
  qed
qed

lemma pairs_sum:
  fixes inp :: "nat \<Rightarrow> 'a::comm_monoid_add"
  shows "(\<Sum>j<M. inp (2 * j) + inp (2 * j + 1)) = (\<Sum>i<2 * M. inp i)"
  by (induction M) (simp_all add: add.assoc)

lemma strided_threads_sum:
  assumes "0 < stride"
  shows "(\<Sum>idx < stride. (\<Sum>j \<in> strided stride M idx. g j)) = (\<Sum>j<M. (g j :: 'a::comm_monoid_add))"
proof -
  have "strided stride M idx = {j \<in> {..<M}. j mod stride = idx}" if "idx < stride" for idx
    using that by (auto simp: strided_def)
  then have "(\<Sum>idx < stride. (\<Sum>j \<in> strided stride M idx. g j))
           = (\<Sum>idx < stride. (\<Sum>j \<in> {j \<in> {..<M}. j mod stride = idx}. g j))"
    by (intro sum.cong) simp_all
  also have "\<dots> = (\<Sum>j<M. g j)"
    using assms by (intro sum.group) auto
  finally show ?thesis .
qed

lemma thread_partial_sum_closed:
  assumes "0 < blockDim cfg * gridDim cfg"
  shows "thread_partial_sum cfg inp N b t
         = Some (thread_share (blockDim cfg * gridDim cfg) inp N (b * blockDim cfg + t))"
  by (simp add: thread_partial_sum_def Let_def vectorized_loop_closed [OF assms] thread_share_def)

lemma thread_shares_total:
  assumes "0 < stride"
  shows "(\<Sum>idx < stride. thread_share stride inp N idx) = (\<Sum>i<N. inp i)"
proof -
  have tail: "(\<Sum>idx < stride. if idx + N div 2 * 2 < N then inp (idx + N div 2 * 2) else 0)
            = (if odd N then inp (N - 1) else 0)"
  proof (cases "odd N")
    case True
    then have last: "N div 2 * 2 = N - 1"
      by presburger
    from True have "(idx + N div 2 * 2 < N) = (idx = 0)" for idx
      by presburger
    then have "(\<Sum>idx < stride. if idx + N div 2 * 2 < N then inp (idx + N div 2 * 2) else 0)
             = (\<Sum>idx < stride. if idx = 0 then inp (N div 2 * 2) else 0)"
      by (intro sum.cong) auto
    also have "\<dots> = inp (N div 2 * 2)"
      using assms by (simp add: sum.delta')
    finally show ?thesis
      using True last by simp
  next
    case False
    then have "\<not> idx + N div 2 * 2 < N" for idx
      by presburger
    with False show ?thesis by simp
  qed
  have "(\<Sum>idx < stride. thread_share stride inp N idx)
        = (\<Sum>j<N div 2. inp (2 * j) + inp (2 * j + 1))
          + (if odd N then inp (N - 1) else 0)"
    by (simp add: thread_share_def sum.distrib strided_threads_sum [OF assms] tail)
  also have "\<dots> = (\<Sum>i<2 * (N div 2). inp i) + (if odd N then inp (N - 1) else 0)"
    by (simp only: pairs_sum)
  also have "\<dots> = (\<Sum>i<N. inp i)"
  proof (cases "odd N")
    case True
    then have "Suc (2 * (N div 2)) = N" and "2 * (N div 2) = N - 1"
      by presburger+
    then show ?thesis
      using True sum.lessThan_Suc [of inp "2 * (N div 2)"] by simp
  next
    case False
    then show ?thesis by simp
  qed
  finally show ?thesis .
qed

subsection \<open>The grid\<close>

lemma those_map_Some:
  "(\<And>x. x \<in> set xs \<Longrightarrow> f x = Some (g x)) \<Longrightarrow> those (map f xs) = Some (map g xs)"
  by (induction xs) simp_all

lemma fold_atomicAdd:
  "fold (\<lambda>threadIdx_x acc. if threadIdx_x = 0 then acc + reduced ! threadIdx_x else acc)
     [0..<n] (out::'a::comm_monoid_add) = (if 0 < n then out + reduced ! 0 else out)"
  by (induction n) simp_all

lemma block_total:
  assumes "blockDim cfg = k * warpSize + r" "1 \<le> k" "r < warpSize"
    and "blockDim cfg \<le> 32 * warpSize" "1 \<le> gridDim cfg"
  shows "blockReduceAtomicVectorized_block inactive uninit cfg inp N b acc
         = Some (acc + (\<Sum>t<k * warpSize.
                          thread_share (blockDim cfg * gridDim cfg) inp N (b * blockDim cfg + t)))"
proof -
  let ?share = "\<lambda>t. thread_share (blockDim cfg * gridDim cfg) inp N (b * blockDim cfg + t)"
  have pos: "0 < blockDim cfg * gridDim cfg" and bd_pos: "0 < blockDim cfg"
    and full: "k * warpSize \<le> blockDim cfg"
    using assms by (simp_all add: warpSize_def)
  have partials: "those (map (thread_partial_sum cfg inp N b) [0..<blockDim cfg])
                  = Some (map ?share [0..<blockDim cfg])"
    by (rule those_map_Some) (simp add: thread_partial_sum_closed [OF pos])
  have "length (map ?share [0..<blockDim cfg]) = k * warpSize + r"
    and "length (map ?share [0..<blockDim cfg]) \<le> 32 * warpSize"
    using assms(1,4) by simp_all
  then obtain reduced
    where red: "blockReduce inactive uninit (map ?share [0..<blockDim cfg]) = Some reduced"
      and r0: "reduced ! 0 = sum_list (take (k * warpSize) (map ?share [0..<blockDim cfg]))"
    using blockReduce_thread0 [OF _ assms(2,3)] by blast
  have "take (k * warpSize) (map ?share [0..<blockDim cfg]) = map ?share [0..<k * warpSize]"
    using full by (simp add: take_map min_def)
  then have "sum_list (take (k * warpSize) (map ?share [0..<blockDim cfg]))
             = (\<Sum>t<k * warpSize. ?share t)"
    by (simp add: interv_sum_list_conv_sum_set_nat atLeast0LessThan)
  with partials red r0 bd_pos show ?thesis
    by (simp add: blockReduceAtomicVectorized_block_def fold_atomicAdd)
qed

lemma fold_blocks:
  assumes "\<And>b acc. block b acc = Some (acc + B b)"
  shows "fold (\<lambda>blockIdx_x r. case r of None \<Rightarrow> None | Some acc \<Rightarrow> block blockIdx_x acc)
           [0..<n] (Some (out::'a::comm_monoid_add)) = Some (out + (\<Sum>b<n. B b))"
  by (induction n) (simp_all add: assms add.assoc)

lemma grid_partial:
  assumes "1 \<le> gridDim cfg" "blockDim cfg = k * warpSize + r" "1 \<le> k" "r < warpSize"
    and "blockDim cfg \<le> 32 * warpSize"
  shows "blockReduceAtomicVectorized inactive uninit cfg inp out N
         = Some (out + (\<Sum>b<gridDim cfg. (\<Sum>t<k * warpSize.
                   thread_share (blockDim cfg * gridDim cfg) inp N (b * blockDim cfg + t))))"
proof -
  let ?bd = "blockDim cfg" and ?gd = "gridDim cfg"
  let ?share = "thread_share (?bd * ?gd) inp N"
  have blk: "blockReduceAtomicVectorized_block inactive uninit cfg inp N b acc
             = Some (acc + (\<lambda>b. \<Sum>t<k * warpSize. ?share (b * ?bd + t)) b)" for b acc
    by (simp add: block_total [OF assms(2,3,4,5,1)])
  show ?thesis
    unfolding blockReduceAtomicVectorized_def
    using fold_blocks [of "blockReduceAtomicVectorized_block inactive uninit cfg inp N"
                          "\<lambda>b. \<Sum>t<k * warpSize. ?share (b * ?bd + t)" ?gd out, OF blk]
    by simp
qed

lemma grid_total:
  assumes "1 \<le> gridDim cfg" "blockDim cfg = k * warpSize" "1 \<le> k" "k \<le> 32"
  shows "blockReduceAtomicVectorized inactive uninit cfg inp out N = Some (out + (\<Sum>i<N. inp i))"
proof -
  let ?bd = "blockDim cfg" and ?gd = "gridDim cfg"
  let ?share = "thread_share (?bd * ?gd) inp N"
  have pos: "0 < ?bd * ?gd"
    using assms by (simp add: warpSize_def)
  have "blockReduceAtomicVectorized inactive uninit cfg inp out N
        = Some (out + (\<Sum>b<?gd. (\<Sum>t<k * warpSize. ?share (b * ?bd + t))))"
    using assms by (intro grid_partial [where r = 0]) (simp_all add: warpSize_def)
  also have "(\<Sum>b<?gd. (\<Sum>t<k * warpSize. ?share (b * ?bd + t)))
           = (\<Sum>b<?gd. sum ?share {b * ?bd ..< b * ?bd + ?bd})"
  proof -
    have "(\<Sum>t<k * warpSize. ?share (b * ?bd + t)) = sum ?share {b * ?bd ..< b * ?bd + ?bd}" for b
      using sum.shift_bounds_nat_ivl [of ?share 0 "b * ?bd" ?bd] assms(2)
      by (simp add: atLeast0LessThan add.commute)
    then show ?thesis
      by simp
  qed
  also have "\<dots> = sum ?share {..<?gd * ?bd}"
    by (rule sum.nat_group)
  also have "\<dots> = sum ?share {..<?bd * ?gd}"
    by (simp add: mult.commute)
  also have "\<dots> = (\<Sum>i<N. inp i)"
    using pos by (rule thread_shares_total)
  finally show ?thesis .
qed


text \<open>
  With \<open>int\<close> elements the sum is the sum modulo \<open>2 ^ 32\<close>: one block of 32 threads
  adds the two elements \<open>2 ^ 30\<close> and \<open>2 ^ 30\<close> to \<open>2 ^ 31\<close>, which an \<open>int\<close>
  reads as \<open>- 2147483648\<close>.
\<close>

lemma blockReduceAtomicVectorized_int_wraps:
  "blockReduceAtomicVectorized inactive uninit \<lparr>gridDim = 1, blockDim = 32\<rparr>
     (\<lambda>_. 2 ^ 30 :: 32 word) 0 2 = Some (2 ^ 31)
   \<and> sint (2 ^ 31 :: 32 word) = - 2147483648"
proof -
  have "blockReduceAtomicVectorized inactive uninit \<lparr>gridDim = 1, blockDim = 32\<rparr>
          (\<lambda>_. 2 ^ 30 :: 32 word) 0 2
        = Some (0 + (\<Sum>i<(2::nat). (2 ^ 30 :: 32 word)))"
    by (rule grid_total [where k = 1]) (simp_all add: warpSize_def)
  then show ?thesis
    by simp
qed




subsection \<open>softmaxKernel\<close>







subsection \<open>blockScatter\<close>

lemma scatter_shared:
  "fold (\<lambda>threadIdx_x sh.
           if threadIdx_x = 0 \<and> b < bd then sh(0 := dat (b * bd + threadIdx_x))
           else if threadIdx_x = 0 \<and> bd \<le> b
                then sh(0 := dat (b * bd + threadIdx_x - bd * b))
                else sh)
     [0..<n] uninit (0::nat)
   = (if 0 < n then dat (if b < bd then b * bd else 0) else uninit 0)"
  by (induction n) (auto simp: mult.commute)

lemma scatter_writes:
  "fold (\<lambda>threadIdx_x d. if b * bd + threadIdx_x < N then d(b * bd + threadIdx_x := v) else d)
     [0..<n] dat
   = (\<lambda>i. if b * bd \<le> i \<and> i < b * bd + n \<and> i < N then v else dat i)"
proof (induction n)
  case 0
  then show ?case by (auto simp: fun_eq_iff)
next
  case (Suc n)
  let ?thread = "\<lambda>threadIdx_x d. if b * bd + threadIdx_x < N
                                  then d(b * bd + threadIdx_x := v) else d"
  have "fold ?thread [0..<Suc n] dat = ?thread n (fold ?thread [0..<n] dat)"
    by simp
  also have "\<dots> = ?thread n (\<lambda>i. if b * bd \<le> i \<and> i < b * bd + n \<and> i < N then v else dat i)"
    by (simp only: Suc.IH)
  also have "\<dots> = (\<lambda>i. if b * bd \<le> i \<and> i < b * bd + Suc n \<and> i < N then v else dat i)"
    by (auto simp: fun_eq_iff)
  finally show ?case .
qed

text \<open>
  What one block does: its elements below \<open>N\<close> receive the block's own first element
  when \<open>blockIdx.x < blockDim.x\<close>, and \<open>data[0]\<close> otherwise, since
  \<open>idx - blockDim.x * blockIdx.x\<close> is 0 for thread 0 of every block.
\<close>

lemma blockScatter_block_source:
  assumes "0 < blockDim cfg"
  shows "blockScatter_block uninit cfg N b dat i
         = (if b * blockDim cfg \<le> i \<and> i < b * blockDim cfg + blockDim cfg \<and> i < N
            then dat (if b < blockDim cfg then b * blockDim cfg else 0)
            else dat i)"
  using assms
  by (simp add: blockScatter_block_def Let_def scatter_shared scatter_writes)

text \<open>
  Claim C6 against the code. Four blocks of two threads on the eight elements
  10, 11, 20, 21, 30, 31, 40, 41. Blocks 0 and 1 scatter their own first elements 10
  and 20. Blocks 2 and 3 are beyond the first wave: both receive 10, the first element
  of block 0. For block 3 that is not the block \<open>blockDim.x = 2\<close> blocks before it,
  which is block 1 with the first element 20, and the distance to the source block is
  2 for block 2 and 3 for block 3.
\<close>

theorem blockScatter_later_blocks_read_data_0:
  "map (blockScatter (\<lambda>_. 0) \<lparr>gridDim = 4, blockDim = 2\<rparr>
          (\<lambda>i. [10, 11, 20, 21, 30, 31, 40, 41] ! i) 8) [0..<8]
   = [10, 10, 20, 20, 10, 10, 10, 10 :: int]"
  by (simp add: blockScatter_def blockScatter_block_def upt_rec Let_def)

end
